theory Spec2Isabelle
  imports
    Main
    "HOL-Library.Word"
    "HOL-Library.Char_ord"
    "HOL-Library.List_Lexorder"
    "HOL-Library.Product_Lexorder"
    "HOL-Library.AList"
    "HOL-Library.Sublist"
begin

section \<open>Data model of \<open>huffman.py\<close>\<close>

text \<open>
  A Python \<open>bytes\<close> object is a list of 8-bit values. The keys of the frequency
  dictionary and of the code dictionary are \<open>bytes\<close> objects; the symbols of the data
  are the one-byte objects \<open>int_to_bytes n\<close>. A Python \<open>dict\<close> keeps insertion order
  and has unique keys: it is an association list whose keys are distinct. A code is a
  Python \<open>str\<close>, a list of characters; strings compare lexicographically by code
  point, tuples compare lexicographically by component.
\<close>

type_synonym byte = "8 word"
type_synonym bytes = "byte list"
type_synonym 'v dict = "(bytes \<times> 'v) list"

datatype error =
  KeyError bytes | ValueError | AttributeError | TypeError | IndexError | OverflowError

text \<open>
  \<open>class Node\<close>: the four fields of the constructor; the field \<open>value\<close> is
  \<open>val\<close> here. \<open>None\<close> in \<open>value\<close>, \<open>lchild\<close> and \<open>rchild\<close> is \<open>None\<close> of the
  option type. The weight is an integer in \<open>build\<close> and a code string in \<open>decode\<close>.
\<close>

datatype 'w node =
  Node (val: "bytes option") (weight: 'w) (lchild: "'w node option") (rchild: "'w node option")

definition int_to_bytes :: "byte \<Rightarrow> bytes" where
  "int_to_bytes n = [n]"

definition OVO :: bytes where
  "OVO = [0x4F, 0x56, 0x4F]"

text \<open>\<open>d[k]\<close> raises \<open>KeyError\<close> on a missing key; \<open>d[k] = v\<close> replaces the value of an
  existing key in place and appends a new key at the end.\<close>

definition getitem :: "'v dict \<Rightarrow> bytes \<Rightarrow> error + 'v" where
  "getitem d k = (case map_of d k of None \<Rightarrow> Inl (KeyError k) | Some v \<Rightarrow> Inr v)"

definition setitem :: "'v dict \<Rightarrow> bytes \<Rightarrow> 'v \<Rightarrow> 'v dict" where
  "setitem d k v = AList.update k v d"

section \<open>\<open>Node.build\<close>\<close>

text \<open>
  The inner function \<open>dlr\<close> (lines 34-43). It is called only on the tree that
  \<open>build\<close> has made, where every childless node was created at line 50 from an item
  of the dictionary and so carries a key; a childless node without a key does not
  occur, and the equation for it leaves the dictionary as it is.
\<close>

fun dlr :: "int node option \<Rightarrow> string \<Rightarrow> string dict \<Rightarrow> string dict" where
  "dlr None huffman_code huffman_dic = huffman_dic"
| "dlr (Some (Node v w None None)) huffman_code huffman_dic =
     (case v of Some k \<Rightarrow> setitem huffman_dic k huffman_code | None \<Rightarrow> huffman_dic)"
| "dlr (Some (Node v w l r)) huffman_code huffman_dic =
     dlr r (huffman_code @ ''1'') (dlr l (huffman_code @ ''0'') huffman_dic)"

text \<open>
  Lines 60-64: the merged node sits at the end of the list and moves towards the front
  past every node whose weight is at most its own. The index stays inside the list:
  it starts at \<open>len(node_lst) - 1\<close> and only decreases.
\<close>

function adjust :: "int node list \<Rightarrow> nat \<Rightarrow> int node \<Rightarrow> int node list" where
  "adjust node_lst index node_add =
     (if index \<noteq> 0 \<and> weight (node_lst ! (index - 1)) \<le> weight node_add
      then adjust (node_lst[index := node_lst ! (index - 1)]) (index - 1) node_add
      else node_lst[index := node_add])"
  by pat_completeness auto
termination
  by (relation "measure (\<lambda>(node_lst, index, node_add). index)") auto

declare adjust.simps [simp del]

lemma length_adjust: "length (adjust node_lst index node_add) = length node_lst"
proof (induction node_lst index node_add rule: adjust.induct)
  case (1 node_lst index node_add)
  then show ?case
    by (subst adjust.simps) simp
qed

text \<open>Lines 53-64: \<open>pop()\<close> takes the last element.\<close>

function build_loop :: "int node list \<Rightarrow> int node list" where
  "build_loop node_lst =
     (if length node_lst > 1 then
        let node_2 = last node_lst;
            node_lst1 = butlast node_lst;
            node_1 = last node_lst1;
            node_lst2 = butlast node_lst1;
            node_add = Node None (weight node_1 + weight node_2) (Some node_1) (Some node_2);
            node_lst3 = node_lst2 @ [node_add];
            index = length node_lst3 - 1
        in build_loop (adjust node_lst3 index node_add)
      else node_lst)"
  by pat_completeness auto
termination
  by (relation "measure length") (auto simp: length_adjust)

declare build_loop.simps [simp del]

text \<open>
  \<open>list.sort(key=..., reverse=True)\<close> is stable: the list is reversed, sorted
  stably in ascending order and reversed again.
\<close>

definition sort_reverse :: "('a \<Rightarrow> 'k::linorder) \<Rightarrow> 'a list \<Rightarrow> 'a list" where
  "sort_reverse f xs = rev (sort_key f (rev xs))"

definition build :: "int dict \<Rightarrow> error + string dict" where
  "build fre_dic =
     (if fre_dic = [] then Inr []
      else if length fre_dic = 1 then Inr (map (\<lambda>(value, _). (value, ''0'')) fre_dic)
      else
        let node_lst = map (\<lambda>(value, weight). Node (Some value) weight None None) fre_dic;
            node_lst = sort_reverse weight node_lst;
            node_lst = build_loop node_lst;
            huffman_dic = map (\<lambda>(key, _). (key, '''')) fre_dic
        in case node_lst of
             [] \<Rightarrow> Inl IndexError
           | root # _ \<Rightarrow> Inr (dlr (Some root) '''' huffman_dic))"

section \<open>\<open>Node.encode\<close>\<close>

text \<open>The characters of a code: the binary digits.\<close>

definition is_bit :: "char \<Rightarrow> bool" where
  "is_bit c \<longleftrightarrow> c = CHR ''0'' \<or> c = CHR ''1''"

text \<open>\<open>int(c)\<close> for a character \<open>c\<close> that is a binary digit.\<close>

definition digit :: "char \<Rightarrow> int" where
  "digit c = (if c = CHR ''1'' then 1 else 0)"

text \<open>
  \<open>int(s, 2)\<close> on a string of the digits \<open>0\<close> and \<open>1\<close>. The empty string raises
  \<open>ValueError\<close>. The model reports every other string as \<open>ValueError\<close> too; the
  built-in also reads a sign, underscores, blanks and a \<open>0b\<close> prefix, which no
  code of binary digits contains, and the statements about \<open>encode\<close> below are
  about dictionaries whose codes are made of \<open>0\<close> and \<open>1\<close>.
\<close>

definition int2 :: "string \<Rightarrow> error + int" where
  "int2 s = (if s \<noteq> [] \<and> list_all is_bit s
             then Inr (foldl (\<lambda>acc c. 2 * acc + digit c) 0 s)
             else Inl ValueError)"

text \<open>\<open>bytearray.append(n)\<close> raises \<open>ValueError\<close> unless \<open>n\<close> is in \<open>range(256)\<close>.\<close>

definition append_byte :: "bytes \<Rightarrow> int \<Rightarrow> error + bytes" where
  "append_byte write_buffer n =
     (if 0 \<le> n \<and> n < 256 then Inr (write_buffer @ [word_of_int n]) else Inl ValueError)"

text \<open>Lines 85-87: the inner \<open>while\<close> loop writes every complete group of 8 characters.\<close>

function flush :: "string \<Rightarrow> bytes \<Rightarrow> error + (string \<times> bytes)" where
  "flush bin_buffer write_buffer =
     (if length bin_buffer \<ge> 8 then
        case int2 (take 8 bin_buffer) of
          Inl e \<Rightarrow> Inl e
        | Inr n \<Rightarrow>
            (case append_byte write_buffer n of
               Inl e \<Rightarrow> Inl e
             | Inr write_buffer' \<Rightarrow> flush (drop 8 bin_buffer) write_buffer')
      else Inr (bin_buffer, write_buffer))"
  by pat_completeness auto
termination
  by (relation "measure (\<lambda>(bin_buffer, write_buffer). length bin_buffer)") auto

declare flush.simps [simp del]

text \<open>Lines 83-87: the \<open>for\<close> loop over the one-byte keys of the data.\<close>

fun encode_loop :: "bytes list \<Rightarrow> string dict \<Rightarrow> string \<Rightarrow> bytes \<Rightarrow> error + (string \<times> bytes)" where
  "encode_loop [] huffman_dic bin_buffer write_buffer = Inr (bin_buffer, write_buffer)"
| "encode_loop (item # read_buffer) huffman_dic bin_buffer write_buffer =
     (case getitem huffman_dic item of
        Inl e \<Rightarrow> Inl e
      | Inr code \<Rightarrow>
          (case flush (bin_buffer @ code) write_buffer of
             Inl e \<Rightarrow> Inl e
           | Inr (bin_buffer', write_buffer') \<Rightarrow>
               encode_loop read_buffer huffman_dic bin_buffer' write_buffer'))"

text \<open>\<open>s.ljust(n, c)\<close> and \<open>s.rjust(n, c)\<close>.\<close>

definition ljust :: "nat \<Rightarrow> char \<Rightarrow> string \<Rightarrow> string" where
  "ljust n c s = s @ replicate (n - length s) c"

definition rjust :: "nat \<Rightarrow> char \<Rightarrow> string \<Rightarrow> string" where
  "rjust n c s = replicate (n - length s) c @ s"

definition encode :: "bytes \<Rightarrow> string dict \<Rightarrow> error + (bytes \<times> int)" where
  "encode str_bytes huffman_dic =
     (let read_buffer = map int_to_bytes str_bytes in
      case encode_loop read_buffer huffman_dic '''' [] of
        Inl e \<Rightarrow> Inl e
      | Inr (bin_buffer, write_buffer) \<Rightarrow>
          if bin_buffer \<noteq> [] then
            (case int2 (ljust 8 CHR ''0'' bin_buffer) of
               Inl e \<Rightarrow> Inl e
             | Inr n \<Rightarrow>
                 (case append_byte write_buffer n of
                    Inl e \<Rightarrow> Inl e
                  | Inr write_buffer' \<Rightarrow> Inr (write_buffer', 8 - int (length bin_buffer))))
          else Inr (write_buffer, 0))"

section \<open>\<open>Node.decode\<close>\<close>

text \<open>The sort key of lines 107 and 116: \<open>(len(weight), weight)\<close>.\<close>

definition code_key :: "string node \<Rightarrow> nat \<times> string" where
  "code_key item = (length (weight item), weight item)"

text \<open>Lines 109-116. \<open>weight[:-1:]\<close> drops the last character (and is empty on the
  empty string).\<close>

function rebuild_loop :: "string node list \<Rightarrow> string node list" where
  "rebuild_loop node_lst =
     (if length node_lst > 1 then
        let node_2 = last node_lst;
            node_lst1 = butlast node_lst;
            node_1 = last node_lst1;
            node_lst2 = butlast node_lst1;
            node_add = Node None (butlast (weight node_1)) (Some node_1) (Some node_2);
            node_lst3 = node_lst2 @ [node_add]
        in rebuild_loop (sort_key code_key node_lst3)
      else node_lst)"
  by pat_completeness auto
termination
  by (relation "measure length") auto

declare rebuild_loop.simps [simp del]

text \<open>\<open>bin(n)[2::]\<close>: the binary digits of a non-negative integer, without leading
  zeros.\<close>

fun bin :: "nat \<Rightarrow> string" where
  "bin n = (if n < 2 then (if n = 0 then ''0'' else ''1'')
            else bin (n div 2) @ (if n mod 2 = 0 then ''0'' else ''1''))"

declare bin.simps [simp del]

text \<open>Line 120: the table from a byte to the list of its 8 bits, as integers.\<close>

definition dic :: "byte \<Rightarrow> int list" where
  "dic item = map digit (rjust 8 CHR ''0'' (bin (unat item)))"

text \<open>\<open>xs[0:n]\<close> for an integer \<open>n\<close>: a negative \<open>n\<close> counts from the end.\<close>

definition slice_to :: "'a list \<Rightarrow> int \<Rightarrow> 'a list" where
  "slice_to xs n = (if n \<ge> 0 then take (nat n) xs else take (length xs - nat (- n)) xs)"

text \<open>\<open>range(0, n, 8)\<close> and the number of its elements.\<close>

definition range8_len :: "int \<Rightarrow> int" where
  "range8_len n = (if n \<le> 0 then 0 else (n + 7) div 8)"

definition range8 :: "int \<Rightarrow> nat list" where
  "range8 n = map (\<lambda>i. 8 * i) [0 ..< nat (range8_len n)]"

text \<open>\<open>sys.maxsize\<close> of a 64-bit build: \<open>len()\<close> raises \<open>OverflowError\<close> on an
  object with more elements.\<close>

definition maxsize :: int where
  "maxsize = 2 ^ 63 - 1"

text \<open>
  Lines 133-141: one step of the walk. Reading a child of a childless node gives
  \<open>None\<close>, and the test of line 139 on \<open>None\<close> raises \<open>AttributeError\<close>;
  \<open>extend\<close> with the \<open>None\<close> value of a node raises \<open>TypeError\<close>.
\<close>

definition walk_step ::
  "string node \<Rightarrow> string node \<times> bytes \<Rightarrow> int \<Rightarrow> error + (string node \<times> bytes)" where
  "walk_step root st item =
     (let (current, write_buffer) = st;
          current' = (if item \<noteq> 0 then rchild current else lchild current)
      in case current' of
           None \<Rightarrow> Inl AttributeError
         | Some c \<Rightarrow>
             if lchild c = None \<and> rchild c = None then
               (case val c of
                  None \<Rightarrow> Inl TypeError
                | Some v \<Rightarrow> Inr (root, write_buffer @ v))
             else Inr (c, write_buffer))"

fun walk_items ::
  "string node \<Rightarrow> string node \<times> bytes \<Rightarrow> int list \<Rightarrow> error + (string node \<times> bytes)" where
  "walk_items root st [] = Inr st"
| "walk_items root st (item # items) =
     (case walk_step root st item of
        Inl e \<Rightarrow> Inl e
      | Inr st' \<Rightarrow> walk_items root st' items)"

fun walk_chunks ::
  "string node \<Rightarrow> int list \<Rightarrow> string node \<times> bytes \<Rightarrow> nat list \<Rightarrow> error + (string node \<times> bytes)" where
  "walk_chunks root read_buffer st [] = Inr st"
| "walk_chunks root read_buffer st (pos # poss) =
     (case walk_items root st (take 8 (drop pos read_buffer)) of
        Inl e \<Rightarrow> Inl e
      | Inr st' \<Rightarrow> walk_chunks root read_buffer st' poss)"

text \<open>Lines 106-116: the forest of one childless node per item of the dictionary, sorted,
  and merged until one node is left.\<close>

definition rebuild :: "string dict \<Rightarrow> string node list" where
  "rebuild huffman_dic =
     (let node_lst = map (\<lambda>(value, weight). Node (Some value) weight None None) huffman_dic;
          node_lst = sort_key code_key node_lst
      in rebuild_loop node_lst)"

text \<open>
  \<open>decode\<close> assigns to its argument \<open>huffman_dic\<close> at line 104, which the caller
  sees: the model returns the dictionary as it is after the call, next to the result.

  Line 131 passes the range to \<open>tqdm\<close>, whose constructor takes \<open>len()\<close> of it, also
  when the bar is disabled: a range of more than \<open>sys.maxsize\<close> elements raises
  \<open>OverflowError\<close> there, after the tree is built and before the first bit is read.
  A \<open>bytes\<close> object has at most \<open>sys.maxsize\<close> bytes, which the type of lists does not
  say; the test is the source's for every \<open>str_bytes\<close> that is a \<open>bytes\<close> object. (The
  \<open>tqdm\<close> of line 83 is given a list, whose \<open>len()\<close> never raises.)
\<close>

definition decode :: "bytes \<Rightarrow> string dict \<Rightarrow> int \<Rightarrow> (error + bytes) \<times> string dict" where
  "decode str_bytes huffman_dic padding =
     (if huffman_dic = [] then (Inr [], huffman_dic)
      else
        let huffman_dic = (if length huffman_dic = 1 then setitem huffman_dic OVO ''OVO''
                           else huffman_dic);
            node_lst = rebuild huffman_dic;
            read_buffer = concat (map dic str_bytes);
            buffer_size = 8 * int (length str_bytes);
            read_buffer = slice_to read_buffer (buffer_size - padding);
            buffer_size = buffer_size - padding
        in case node_lst of
             [] \<Rightarrow> (Inl IndexError, huffman_dic)
           | root # _ \<Rightarrow>
               if maxsize < range8_len buffer_size \<and> int (length str_bytes) \<le> maxsize
               then (Inl OverflowError, huffman_dic)
               else
                 (case walk_chunks root read_buffer (root, []) (range8 buffer_size) of
                    Inl e \<Rightarrow> (Inl e, huffman_dic)
                  | Inr (current, write_buffer) \<Rightarrow> (Inr write_buffer, huffman_dic)))"

section \<open>Notions used in the statements and proofs\<close>

text \<open>The value of a bit string, and the 8 binary digits of a byte as \<open>decode\<close>
  computes them at line 120, before the conversion of the digits to integers.\<close>

definition bitval :: "string \<Rightarrow> int" where
  "bitval s = foldl (\<lambda>acc c. 2 * acc + digit c) 0 s"

definition bstr :: "byte \<Rightarrow> string" where
  "bstr item = rjust 8 CHR ''0'' (bin (unat item))"

text \<open>The test of line 139, a tree in which every node has no child or two children, and
  such a tree whose childless nodes all carry a key.\<close>

definition is_leaf :: "'w node \<Rightarrow> bool" where
  "is_leaf n \<longleftrightarrow> lchild n = None \<and> rchild n = None"

fun full :: "'w node \<Rightarrow> bool" where
  "full (Node v w None None) = True"
| "full (Node v w (Some l) (Some r)) = (full l \<and> full r)"
| "full (Node v w l r) = False"

fun proper :: "'w node \<Rightarrow> bool" where
  "proper (Node v w None None) = (v \<noteq> None)"
| "proper (Node v w (Some l) (Some r)) = (proper l \<and> proper r)"
| "proper (Node v w l r) = False"

text \<open>The childless nodes of a tree from left to right: the path from the root
  (\<open>0\<close> to the left child, \<open>1\<close> to the right child) and the key.\<close>

fun paths :: "'w node \<Rightarrow> (string \<times> bytes) list" where
  "paths (Node v w None None) = (case v of Some k \<Rightarrow> [([], k)] | None \<Rightarrow> [])"
| "paths (Node v w (Some l) (Some r)) =
     map (\<lambda>(p, k). (CHR ''0'' # p, k)) (paths l) @ map (\<lambda>(p, k). (CHR ''1'' # p, k)) (paths r)"
| "paths (Node v w l r) = []"

text \<open>The keys of the childless nodes of a tree, from left to right.\<close>

definition leaf_keys :: "'w node \<Rightarrow> bytes list" where
  "leaf_keys n = map snd (paths n)"

text \<open>
  A set of bit strings is the set of the paths to the childless nodes of a tree in which
  every node has no child or two children: every string is made of \<open>0\<close> and
  \<open>1\<close>, none is a prefix of another, and with every string that continues a
  prefix \<open>q\<close> by a bit there is one that continues \<open>q\<close> by the other bit.
\<close>

definition flip :: "char \<Rightarrow> char" where
  "flip x = (if x = CHR ''0'' then CHR ''1'' else CHR ''0'')"

definition complete_code :: "string set \<Rightarrow> bool" where
  "complete_code S \<longleftrightarrow>
     (\<forall>c \<in> S. list_all is_bit c) \<and>
     (\<forall>a \<in> S. \<forall>b \<in> S. prefix a b \<longrightarrow> a = b) \<and>
     (\<forall>q x. (\<exists>c \<in> S. prefix (q @ [x]) c) \<longrightarrow> (\<exists>c' \<in> S. prefix (q @ [flip x]) c'))"

text \<open>
  The dictionary items under a node of the forest of \<open>decode\<close>: the key of each
  childless node below it, with the weight of the node followed by the path to the
  childless node. The invariant of the loop of lines 109-116: the forest is sorted, the
  weights are distinct and form such a set of paths, and the items under its nodes are
  the items of the dictionary.
\<close>

definition leaf_codes :: "string node \<Rightarrow> (bytes \<times> string) list" where
  "leaf_codes n = map (\<lambda>(p, k). (k, weight n @ p)) (paths n)"

definition forest_inv :: "(bytes \<times> string) set \<Rightarrow> string node list \<Rightarrow> bool" where
  "forest_inv T ns \<longleftrightarrow>
     (\<forall>n \<in> set ns. proper n) \<and> sorted (map code_key ns) \<and> distinct (map weight ns) \<and>
     complete_code (set (map weight ns)) \<and> (\<Union>n \<in> set ns. set (leaf_codes n)) = T"

section \<open>The degenerate frequency maps\<close>

text \<open>
  C8. \<open>Node.build\<close> of the empty frequency map is the empty code table, without an
  error, and \<open>Node.build\<close> of a frequency map with exactly one symbol is the table
  with the single entry that maps this symbol to the one-bit code \<open>0\<close>.
\<close>

theorem build_empty_and_single:
  "build [] = Inr [] \<and> build [(symbol, n)] = Inr [(symbol, ''0'')]"
  by (simp add: build_def)

section \<open>\<open>Node.decode\<close> on the empty code table\<close>

text \<open>
  C6, as the code has it. Line 101 returns the empty byte sequence for the empty code
  table, whatever the packed bytes and the padding are: a non-empty payload is not
  reported as a failure.
\<close>

theorem decode_empty_table_nonempty_payload:
  "fst (decode [0] [] 0) = Inr []"
  by (simp add: decode_def)

text \<open>
  C6, amended. For the empty code table \<open>Node.decode\<close> returns the empty byte
  sequence for every packed byte sequence and every padding, and leaves the table
  empty.
\<close>

theorem decode_empty_table:
  "decode str_bytes [] padding = (Inr [], [])"
  by (simp add: decode_def)

section \<open>Bit strings and bytes\<close>

lemma bitval_Nil [simp]: "bitval [] = 0"
  by (simp add: bitval_def)

lemma bitval_snoc [simp]: "bitval (s @ [c]) = 2 * bitval s + digit c"
  by (simp add: bitval_def)

lemma digit_ge0: "0 \<le> digit c"
  by (simp add: digit_def)

lemma digit_le1: "digit c \<le> 1"
  by (simp add: digit_def)

lemma bitval_nonneg: "0 \<le> bitval s"
proof (induction s rule: rev_induct)
  case Nil
  show ?case by simp
next
  case (snoc c s)
  with digit_ge0 [of c] digit_le1 [of c] show ?case by simp
qed

lemma bitval_less: "bitval s < 2 ^ length s"
proof (induction s rule: rev_induct)
  case Nil
  show ?case by simp
next
  case (snoc c s)
  with digit_ge0 [of c] digit_le1 [of c] show ?case by simp
qed

lemma bitval_zero:
  "list_all is_bit s \<Longrightarrow> bitval s = 0 \<Longrightarrow> s = replicate (length s) CHR ''0''"
proof (induction s rule: rev_induct)
  case Nil
  show ?case by simp
next
  case (snoc c s)
  from snoc.prems(2) have e: "2 * bitval s + digit c = 0" by simp
  from e bitval_nonneg [of s] digit_ge0 [of c] have z: "bitval s = 0" by linarith
  from e z have d: "digit c = 0" by simp
  from d snoc.prems(1) have c: "c = CHR ''0''"
    by (auto simp: digit_def is_bit_def split: if_splits)
  from snoc.IH snoc.prems(1) z obtain n where "s = replicate n CHR ''0''" by auto
  with c show ?case by (simp add: replicate_append_same)
qed

lemma bin_nonempty: "bin n \<noteq> []"
  by (subst bin.simps) simp

lemma length_bin_bitval:
  "list_all is_bit s \<Longrightarrow> s \<noteq> [] \<Longrightarrow> rjust (length s) CHR ''0'' (bin (nat (bitval s))) = s"
proof (induction s rule: rev_induct)
  case Nil
  then show ?case by simp
next
  case (snoc c s)
  have bits: "list_all is_bit s" and c: "is_bit c" using snoc.prems(1) by simp_all
  have dc: "(if digit c = 0 then ''0'' else ''1'') = [c]"
    using c by (auto simp: is_bit_def digit_def)
  show ?case
  proof (cases "bitval s = 0")
    case True
    with bits obtain n where s: "s = replicate n CHR ''0''" using bitval_zero by blast
    have "nat (bitval (s @ [c])) < 2" using True digit_ge0 [of c] digit_le1 [of c] by simp
    moreover have "(nat (bitval (s @ [c])) = 0) = (digit c = 0)"
      using True digit_ge0 [of c] digit_le1 [of c] by simp
    ultimately have "bin (nat (bitval (s @ [c]))) = [c]"
      using dc by (subst bin.simps) simp
    then show ?thesis using s by (simp add: rjust_def)
  next
    case False
    with bitval_nonneg [of s] have pos: "1 \<le> bitval s" by simp
    then have ne: "s \<noteq> []" by auto
    have n2: "\<not> nat (bitval (s @ [c])) < 2" using pos digit_ge0 [of c] digit_le1 [of c] by simp
    have e: "nat (bitval (s @ [c])) = 2 * nat (bitval s) + nat (digit c)"
      using pos digit_ge0 [of c] by (simp add: nat_add_distrib nat_mult_distrib)
    have b: "nat (digit c) < 2" using digit_le1 [of c] by simp
    have dv: "nat (bitval (s @ [c])) div 2 = nat (bitval s)"
      unfolding e using b by simp
    have "(nat (bitval (s @ [c])) mod 2 = 0) = (nat (digit c) = 0)"
      unfolding e using b by simp
    then have md: "(nat (bitval (s @ [c])) mod 2 = 0) = (digit c = 0)"
      using digit_ge0 [of c] by simp
    have "bin (nat (bitval (s @ [c]))) = bin (nat (bitval s)) @ [c]"
      using n2 dv md dc by (subst bin.simps) simp
    moreover have "rjust (length s) CHR ''0'' (bin (nat (bitval s))) = s"
      using snoc.IH bits ne by simp
    ultimately show ?thesis by (simp add: rjust_def)
  qed
qed

lemma int2_bits: "list_all is_bit s \<Longrightarrow> s \<noteq> [] \<Longrightarrow> int2 s = Inr (bitval s)"
  by (simp add: int2_def bitval_def)

lemma group_byte:
  assumes "list_all is_bit g" and "length g = 8"
  shows "\<exists>b. int2 g = Inr (bitval g) \<and> append_byte wb (bitval g) = Inr (wb @ [b]) \<and> bstr b = g"
proof -
  from assms have ne: "g \<noteq> []" by auto
  have r: "0 \<le> bitval g" "bitval g < 256"
    using bitval_nonneg [of g] bitval_less [of g] assms(2) by simp_all
  have "unat (word_of_int (bitval g) :: byte) = nat (bitval g)"
    using r by (simp add: unat_eq_nat_uint  uint_word_of_int)
  then have "bstr (word_of_int (bitval g)) = g"
    using length_bin_bitval [OF assms(1) ne] assms(2) by (simp add: bstr_def)
  then show ?thesis using r ne assms(1) by (simp add: int2_bits append_byte_def)
qed


lemma is_bit_take: "list_all is_bit s \<Longrightarrow> list_all is_bit (take n s)"
  by (auto simp: list_all_iff dest: in_set_takeD)

lemma is_bit_drop: "list_all is_bit s \<Longrightarrow> list_all is_bit (drop n s)"
  by (auto simp: list_all_iff dest: in_set_dropD)

lemma flush_ok:
  "list_all is_bit buf \<Longrightarrow>
   \<exists>new buf'. flush buf wb = Inr (buf', wb @ new) \<and> concat (map bstr new) @ buf' = buf
      \<and> length buf' < 8"
proof (induction buf wb rule: flush.induct)
  case (1 buf wb)
  show ?case
  proof (cases "8 \<le> length buf")
    case True
    let ?g = "take 8 buf"
    have g: "list_all is_bit ?g" "length ?g = 8"
      using "1.prems" True by (simp_all add: is_bit_take)
    from group_byte [OF g, of wb] obtain b where
      b: "int2 ?g = Inr (bitval ?g)" "append_byte wb (bitval ?g) = Inr (wb @ [b])" "bstr b = ?g"
      by blast
    have "list_all is_bit (drop 8 buf)" using "1.prems" by (rule is_bit_drop)
    from "1.IH" [OF True b(1) b(2) this] obtain new buf' where
      r: "flush (drop 8 buf) (wb @ [b]) = Inr (buf', (wb @ [b]) @ new)"
         "concat (map bstr new) @ buf' = drop 8 buf" "length buf' < 8"
      by blast
    have "flush buf wb = Inr (buf', wb @ (b # new))"
      using True b r(1) by (subst flush.simps) simp
    moreover have "concat (map bstr (b # new)) @ buf' = buf"
      using b(3) r(2) by simp
    ultimately show ?thesis using r(3) by blast
  next
    case False
    then have "flush buf wb = Inr (buf, wb @ [])"
      by (subst flush.simps) simp
    with False show ?thesis by fastforce
  qed
qed

lemma encode_loop_ok:
  assumes "map (map_of tbl) keys = map Some codes"
    and "\<forall>c \<in> set codes. list_all is_bit c"
    and "list_all is_bit buf" and "length buf < 8"
  shows "\<exists>new buf'. encode_loop keys tbl buf wb = Inr (buf', wb @ new)
            \<and> concat (map bstr new) @ buf' = buf @ concat codes \<and> length buf' < 8"
  using assms
proof (induction keys arbitrary: codes buf wb)
  case Nil
  then show ?case by fastforce
next
  case (Cons k keys)
  from Cons.prems(1) obtain c cs where
    cs: "codes = c # cs" "map_of tbl k = Some c" "map (map_of tbl) keys = map Some cs"
    by (cases codes) auto
  have bits: "list_all is_bit (buf @ c)"
    using Cons.prems(2,3) cs(1) by simp
  from flush_ok [OF bits, of wb] obtain new1 buf1 where
    f: "flush (buf @ c) wb = Inr (buf1, wb @ new1)" "concat (map bstr new1) @ buf1 = buf @ c"
       "length buf1 < 8"
    by blast
  have b1: "list_all is_bit buf1"
  proof -
    have "set buf1 \<subseteq> set (buf @ c)" by (subst f(2) [symmetric]) simp
    with bits show ?thesis by (auto simp: list_all_iff)
  qed
  have "\<forall>c \<in> set cs. list_all is_bit c" using Cons.prems(2) cs(1) by simp
  from Cons.IH [OF cs(3) this b1 f(3), of "wb @ new1"] obtain new2 buf2 where
    r: "encode_loop keys tbl buf1 (wb @ new1) = Inr (buf2, (wb @ new1) @ new2)"
       "concat (map bstr new2) @ buf2 = buf1 @ concat cs" "length buf2 < 8"
    by blast
  have "encode_loop (k # keys) tbl buf wb = Inr (buf2, wb @ (new1 @ new2))"
    using cs(2) f(1) r(1) by (simp add: getitem_def)
  moreover have "concat (map bstr (new1 @ new2)) @ buf2 = buf @ concat codes"
  proof -
    have "concat (map bstr (new1 @ new2)) @ buf2 = concat (map bstr new1) @ (buf1 @ concat cs)"
      using r(2) by simp
    also have "\<dots> = (concat (map bstr new1) @ buf1) @ concat cs" by simp
    also have "\<dots> = buf @ concat codes" by (simp only: f(2) cs(1)) simp
    finally show ?thesis .
  qed
  ultimately show ?case using r(3) by blast
qed

lemma length_bstr: "length (bstr b) = 8"
proof -
  have "length (bin n) \<le> 8" if "n < 256" for n
  proof -
    have "n < 2 ^ k \<Longrightarrow> 0 < k \<Longrightarrow> length (bin n) \<le> k" for k
    proof (induction n arbitrary: k rule: bin.induct)
      case (1 n)
      show ?case
      proof (cases "n < 2")
        case True
        then show ?thesis using "1.prems" by (subst bin.simps) simp
      next
        case False
        then obtain k' where k: "k = Suc k'" "0 < k'" using "1.prems"
          by (cases k; cases "k - 1") auto
        have "n div 2 < 2 ^ k'" using "1.prems"(1) k(1) by auto
        from "1.IH" [OF False this k(2)] show ?thesis
          using False k(1) by (subst bin.simps) simp
      qed
    qed
    from this [of 8] that show ?thesis by simp
  qed
  moreover have "unat b < 256" using unsigned_less [of b] by simp
  ultimately have "length (bin (unat b)) \<le> 8" by blast
  then show ?thesis by (simp add: bstr_def rjust_def)
qed

lemma length_dic: "length (dic b) = 8"
  using length_bstr [of b] by (simp add: dic_def bstr_def)

lemma dic_bstr: "dic b = map digit (bstr b)"
  by (simp add: dic_def bstr_def)

lemma concat_dic: "concat (map dic bs) = map digit (concat (map bstr bs))"
  by (induction bs) (simp_all add: dic_bstr)

lemma encode_ok:
  assumes "map (map_of tbl \<circ> int_to_bytes) s = map Some codes"
    and "\<forall>c \<in> set codes. list_all is_bit c"
  shows "\<exists>packed padding. encode s tbl = Inr (packed, padding)
           \<and> concat (map bstr packed) = concat codes @ replicate (nat padding) CHR ''0''
           \<and> 0 \<le> padding \<and> padding \<le> 7
           \<and> (length (concat codes) mod 8 = 0 \<longrightarrow> padding = 0)"
proof -
  from assms(1) have "map (map_of tbl) (map int_to_bytes s) = map Some codes" by simp
  from encode_loop_ok [OF this assms(2), of "[]" "[]"] obtain new buf where
    l: "encode_loop (map int_to_bytes s) tbl [] [] = Inr (buf, new)"
       "concat (map bstr new) @ buf = concat codes" "length buf < 8"
    by auto
  have lenb: "length (concat (map bstr bs)) = 8 * length bs" for bs
    by (induction bs) (simp_all add: length_bstr)
  show ?thesis
  proof (cases "buf = []")
    case True
    have "encode s tbl = Inr (new, 0)" using l(1) True by (simp add: encode_def)
    moreover have "concat (map bstr new) = concat codes" using l(2) True by simp
    ultimately show ?thesis by simp
  next
    case False
    let ?g = "ljust 8 CHR ''0'' buf"
    have bb: "list_all is_bit buf"
    proof -
      have "set buf \<subseteq> set (concat codes)" by (subst l(2) [symmetric]) simp
      with assms(2) show ?thesis by (auto simp: list_all_iff)
    qed
    have g: "list_all is_bit ?g" "length ?g = 8"
      using bb l(3) by (simp_all add: ljust_def is_bit_def list_all_iff)
    from group_byte [OF g, of new] obtain b where
      b: "int2 ?g = Inr (bitval ?g)" "append_byte new (bitval ?g) = Inr (new @ [b])" "bstr b = ?g"
      by blast
    have e: "encode s tbl = Inr (new @ [b], 8 - int (length buf))"
      using l(1) False b by (simp add: encode_def)
    have n: "nat (8 - int (length buf)) = 8 - length buf" using l(3) by simp
    have c: "concat (map bstr (new @ [b])) = concat codes @ replicate (8 - length buf) CHR ''0''"
      using b(3) l(2) [symmetric] by (simp add: ljust_def)
    have m: "length (concat codes) mod 8 \<noteq> 0"
    proof -
      have "length (concat codes) = 8 * length new + length buf"
        using lenb [of new] by (subst l(2) [symmetric]) simp
      then show ?thesis using False l(3) by simp
    qed
    have p0: "(0::int) \<le> 8 - int (length buf)" using l(3) by simp
    have p7: "8 - int (length buf) \<le> 7" using False by (cases buf) simp_all
    show ?thesis
    proof (intro exI conjI)
      show "encode s tbl = Inr (new @ [b], 8 - int (length buf))" by (rule e)
      show "concat (map bstr (new @ [b])) =
              concat codes @ replicate (nat (8 - int (length buf))) CHR ''0''"
        unfolding n by (rule c)
      show "0 \<le> 8 - int (length buf)" by (rule p0)
      show "8 - int (length buf) \<le> 7" by (rule p7)
      show "length (concat codes) mod 8 = 0 \<longrightarrow> 8 - int (length buf) = 0"
        using m by simp
    qed
  qed
qed

section \<open>\<open>Node.encode\<close>: the packed bytes and the padding\<close>

text \<open>
  C3. Let every symbol of \<open>s\<close> have a code in the table, \<open>codes\<close> being these codes
  in the order of \<open>s\<close>, each a string of the digits \<open>0\<close> and \<open>1\<close>. Then
  \<open>Node.encode\<close> returns a pair \<open>(packed, padding)\<close> with
  \<open>8 * len(packed) - padding\<close> equal to the sum of the lengths of the codes, the
  padding between 0 and 7, the padding 0 when that sum is a multiple of 8, no packed
  byte for the empty input, and the bits of the packed bytes (most significant bit
  first, as \<open>decode\<close> expands them) are the bits of the codes followed by
  \<open>padding\<close> zero bits.
\<close>

theorem encode_bit_length:
  assumes "map (map_of table \<circ> int_to_bytes) s = map Some codes"
    and "\<forall>c \<in> set codes. list_all is_bit c"
  shows "\<exists>packed padding. encode s table = Inr (packed, padding)
           \<and> 8 * int (length packed) - padding = int (sum_list (map length codes))
           \<and> 0 \<le> padding \<and> padding \<le> 7
           \<and> (sum_list (map length codes) mod 8 = 0 \<longrightarrow> padding = 0)
           \<and> (s = [] \<longrightarrow> packed = [])
           \<and> concat (map dic packed) = map digit (concat codes) @ replicate (nat padding) 0"
proof -
  from encode_ok [OF assms] obtain packed padding where
    e: "encode s table = Inr (packed, padding)"
    and c: "concat (map bstr packed) = concat codes @ replicate (nat padding) CHR ''0''"
    and p: "0 \<le> padding" "padding \<le> 7"
    and z: "length (concat codes) mod 8 = 0 \<longrightarrow> padding = 0"
    by (elim exE conjE)
  have lenb: "length (concat (map bstr packed)) = 8 * length packed"
    by (induction packed) (simp_all add: length_bstr)
  have lc: "length (concat codes) = sum_list (map length codes)"
    by (simp add: length_concat)
  have "8 * length packed = sum_list (map length codes) + nat padding"
    using lenb lc by (simp add: c)
  then have "8 * int (length packed) = int (sum_list (map length codes)) + padding"
    using p(1) by linarith
  then have len: "8 * int (length packed) - padding = int (sum_list (map length codes))"
    by simp
  have emp: "packed = []" if "s = []"
  proof -
    from that assms(1) have "codes = []" by simp
    with z have "padding = 0" by simp
    with \<open>codes = []\<close> lenb c have "8 * length packed = 0" by simp
    then show ?thesis by simp
  qed
  have d: "concat (map dic packed) = map digit (concat codes) @ replicate (nat padding) 0"
    by (simp add: concat_dic c digit_def)
  show ?thesis
  proof (intro exI conjI)
    show "encode s table = Inr (packed, padding)" by (rule e)
    show "8 * int (length packed) - padding = int (sum_list (map length codes))" by (rule len)
    show "0 \<le> padding" "padding \<le> 7" by (rule p)+
    show "sum_list (map length codes) mod 8 = 0 \<longrightarrow> padding = 0" using z lc by simp
    show "s = [] \<longrightarrow> packed = []" using emp by blast
    show "concat (map dic packed) = map digit (concat codes) @ replicate (nat padding) 0"
      by (rule d)
  qed
qed

theorem encode_bit_length_witness:
  "\<exists>packed padding.
      encode [0x4F, 0x56, 0x4F] [([0x4F], ''0''), ([0x56], ''1'')] = Inr (packed, padding)
      \<and> 8 * int (length packed) - padding = 3 \<and> 0 \<le> padding \<and> padding \<le> 7
      \<and> concat (map dic packed) = [0, 1, 0] @ replicate (nat padding) 0"
  using encode_bit_length [of "[([0x4F], ''0''), ([0x56], ''1'')]" "[0x4F, 0x56, 0x4F]"
      "[''0'', ''1'', ''0'']"]
  by (simp add: int_to_bytes_def is_bit_def digit_def)

section \<open>\<open>Node.encode\<close>: a symbol without a code\<close>

lemma encode_loop_unknown:
  assumes "map (map_of tbl) keys = map Some codes"
    and "\<forall>c \<in> set codes. list_all is_bit c"
    and "list_all is_bit buf" and "length buf < 8"
    and "map_of tbl k = None"
  shows "encode_loop (keys @ k # rest) tbl buf wb = Inl (KeyError k)"
  using assms(1-4)
proof (induction keys arbitrary: codes buf wb)
  case Nil
  show ?case using assms(5) by (simp add: getitem_def)
next
  case (Cons k' keys)
  from Cons.prems(1) obtain c cs where
    cs: "codes = c # cs" "map_of tbl k' = Some c" "map (map_of tbl) keys = map Some cs"
    by (cases codes) auto
  have bits: "list_all is_bit (buf @ c)"
    using Cons.prems(2,3) cs(1) by simp
  from flush_ok [OF bits, of wb] obtain new1 buf1 where
    f: "flush (buf @ c) wb = Inr (buf1, wb @ new1)" "concat (map bstr new1) @ buf1 = buf @ c"
       "length buf1 < 8"
    by blast
  have b1: "list_all is_bit buf1"
  proof -
    have "set buf1 \<subseteq> set (buf @ c)" by (subst f(2) [symmetric]) simp
    with bits show ?thesis by (auto simp: list_all_iff)
  qed
  have "\<forall>c \<in> set cs. list_all is_bit c" using Cons.prems(2) cs(1) by simp
  from Cons.IH [OF cs(3) this b1 f(3), of "wb @ new1"] show ?case
    using cs(2) f(1) by (simp add: getitem_def)
qed

text \<open>
  C4. Let \<open>x\<close> be the first symbol of the data that has no entry in the code table:
  the symbols before it have the codes \<open>codes\<close>, strings of the digits \<open>0\<close> and
  \<open>1\<close>. Then \<open>Node.encode\<close> returns no output: it fails with the \<open>KeyError\<close> of
  the lookup at line 84, which names this symbol, whatever follows it in the data.
\<close>

theorem encode_unknown_symbol:
  assumes "map (map_of table \<circ> int_to_bytes) before = map Some codes"
    and "\<forall>c \<in> set codes. list_all is_bit c"
    and "map_of table (int_to_bytes x) = None"
  shows "encode (before @ x # rest) table = Inl (KeyError (int_to_bytes x))"
proof -
  from assms(1) have "map (map_of table) (map int_to_bytes before) = map Some codes" by simp
  from encode_loop_unknown [OF this assms(2) _ _ assms(3), of "[]" "map int_to_bytes rest" "[]"]
  show ?thesis by (simp add: encode_def)
qed

theorem encode_unknown_symbol_witness:
  "encode [1, 9, 3] [([1], ''11''), ([2], ''000'')] = Inl (KeyError [9])"
  using encode_unknown_symbol [of "[([1], ''11''), ([2], ''000'')]" "[1]" "[''11'']" 9 "[3]"]
  by (simp add: int_to_bytes_def is_bit_def)

section \<open>\<open>Node.decode\<close>: the walk never leaves the tree\<close>

lemma proper_full: "proper n \<Longrightarrow> full n"
  by (induction n rule: proper.induct) simp_all

lemma walk_items_append:
  "walk_items root st (xs @ ys) =
     (case walk_items root st xs of Inl e \<Rightarrow> Inl e | Inr st' \<Rightarrow> walk_items root st' ys)"
  by (induction xs arbitrary: st) (simp_all split: sum.splits)

lemma walk_chunks_upt:
  "walk_chunks root rb st (map (\<lambda>i. 8 * i) [k ..< k + d]) =
     walk_items root st (take (8 * d) (drop (8 * k) rb))"
proof (induction d arbitrary: k st)
  case 0
  show ?case by simp
next
  case (Suc d)
  have u: "[k ..< k + Suc d] = k # [Suc k ..< Suc k + d]"
    by (simp add: upt_conv_Cons)
  have t: "take (8 * Suc d) (drop (8 * k) rb) =
             take 8 (drop (8 * k) rb) @ take (8 * d) (drop (8 * Suc k) rb)"
  proof -
    have "take (8 + 8 * d) (drop (8 * k) rb) =
            take 8 (drop (8 * k) rb) @ take (8 * d) (drop 8 (drop (8 * k) rb))"
      by (rule take_add)
    then show ?thesis by (simp add: add.commute)
  qed
  have ih: "\<And>st'. walk_chunks root rb st' (map (\<lambda>i. 8 * i) [Suc k ..< Suc k + d]) =
                walk_items root st' (take (8 * d) (drop (8 * Suc k) rb))"
    by (rule Suc.IH)
  show ?case
    unfolding u t walk_items_append list.map walk_chunks.simps ih ..
qed

lemma walk_chunks_range8:
  assumes "int (length rb) \<le> n"
  shows "walk_chunks root rb st (range8 n) = walk_items root st rb"
proof -
  let ?m = "nat (range8_len n)"
  have "length rb \<le> 8 * ?m"
  proof (cases "n \<le> 0")
    case True
    with assms show ?thesis by simp
  next
    case False
    then have "n \<le> 8 * ((n + 7) div 8)" by linarith
    with assms False show ?thesis by (simp add: range8_len_def)
  qed
  then have "take (8 * ?m) (drop (8 * 0) rb) = rb" by simp
  with walk_chunks_upt [of root rb st 0 ?m] show ?thesis
    by (simp add: range8_def)
qed

lemma range8_nonpos: "n \<le> 0 \<Longrightarrow> range8 n = []"
  by (simp add: range8_def range8_len_def)

lemma range8_len_bound: "n \<le> 8 * m \<Longrightarrow> 0 \<le> m \<Longrightarrow> range8_len n \<le> m"
  unfolding range8_len_def by (simp split: if_splits) linarith

lemma no_overflow:
  assumes "0 \<le> padding"
  shows "\<not> (maxsize < range8_len (8 * int (length packed) - padding)
            \<and> int (length packed) \<le> maxsize)"
proof -
  from assms have "8 * int (length packed) - padding \<le> 8 * int (length packed)" by simp
  then have "range8_len (8 * int (length packed) - padding) \<le> int (length packed)"
    by (rule range8_len_bound) simp
  then show ?thesis by simp
qed

lemma proper_children:
  "proper n \<Longrightarrow> \<not> is_leaf n \<Longrightarrow>
     \<exists>l r. lchild n = Some l \<and> rchild n = Some r \<and> proper l \<and> proper r"
  by (induction n rule: proper.induct) (simp_all add: is_leaf_def)

lemma proper_leaf_val: "proper n \<Longrightarrow> is_leaf n \<Longrightarrow> \<exists>k. val n = Some k"
  by (induction n rule: proper.induct) (simp_all add: is_leaf_def)

lemma walk_step_total:
  assumes "proper root" "\<not> is_leaf root" "proper cur" "\<not> is_leaf cur"
  shows "\<exists>cur' out'. walk_step root (cur, out) item = Inr (cur', out')
            \<and> proper cur' \<and> \<not> is_leaf cur'"
proof -
  from proper_children [OF assms(3,4)] obtain l r where
    c: "lchild cur = Some l" "rchild cur = Some r" "proper l" "proper r" by blast
  define c' where "c' = (if item \<noteq> 0 then r else l)"
  have pc: "proper c'" using c by (simp add: c'_def)
  have nx: "(if item \<noteq> 0 then rchild cur else lchild cur) = Some c'"
    using c by (simp add: c'_def)
  show ?thesis
  proof (cases "is_leaf c'")
    case True
    from proper_leaf_val [OF pc True] obtain k where "val c' = Some k" by blast
    with True nx have "walk_step root (cur, out) item = Inr (root, out @ k)"
      by (simp add: walk_step_def is_leaf_def)
    with assms(1,2) show ?thesis by blast
  next
    case False
    with nx have "walk_step root (cur, out) item = Inr (c', out)"
      by (auto simp: walk_step_def is_leaf_def)
    with pc False show ?thesis by blast
  qed
qed

lemma walk_items_total:
  assumes "proper root" "\<not> is_leaf root"
  shows "proper cur \<Longrightarrow> \<not> is_leaf cur \<Longrightarrow>
           \<exists>cur' out'. walk_items root (cur, out) items = Inr (cur', out')"
proof (induction items arbitrary: cur out)
  case Nil
  show ?case by simp
next
  case (Cons item items)
  from walk_step_total [OF assms Cons.prems, of out item] obtain cur' out' where
    s: "walk_step root (cur, out) item = Inr (cur', out')" "proper cur'" "\<not> is_leaf cur'"
    by blast
  from Cons.IH [OF s(2,3), of out'] s(1) show ?case by simp
qed

lemma length_rebuild_loop: "node_lst \<noteq> [] \<Longrightarrow> length (rebuild_loop node_lst) = 1"
proof (induction node_lst rule: rebuild_loop.induct)
  case (1 node_lst)
  show ?case
  proof (cases "1 < length node_lst")
    case True
    let ?n = "Node None (butlast (weight (last (butlast node_lst))))
                (Some (last (butlast node_lst))) (Some (last node_lst))"
    have "(sort_key code_key (butlast (butlast node_lst) @ [?n])) \<noteq> []"
      by (metis length_sort list.size(3) snoc_eq_iff_butlast length_0_conv)
    from "1.IH" [OF True refl refl refl refl refl refl this] True show ?thesis
      by (subst rebuild_loop.simps) (simp add: Let_def)
  next
    case False
    with "1.prems" have "length node_lst = 1" by (cases node_lst) auto
    then show ?thesis by (subst rebuild_loop.simps) simp
  qed
qed

lemma rebuild_loop_proper:
  assumes "2 \<le> length node_lst" "\<forall>n \<in> set node_lst. proper n"
  shows "\<exists>root. rebuild_loop node_lst = [root] \<and> proper root \<and> \<not> is_leaf root"
  using assms
proof (induction node_lst rule: rebuild_loop.induct)
  case (1 node_lst)
  let ?n1 = "last (butlast node_lst)" and ?n2 = "last node_lst"
  let ?n = "Node None (butlast (weight ?n1)) (Some ?n1) (Some ?n2)"
  let ?l3 = "sort_key code_key (butlast (butlast node_lst) @ [?n])"
  from "1.prems"(1) have gt: "1 < length node_lst" by simp
  have r: "rebuild_loop node_lst = rebuild_loop ?l3"
    using gt by (subst rebuild_loop.simps) (simp add: Let_def)
  have n2: "?n2 \<in> set node_lst" using gt by (intro last_in_set) auto
  have "butlast node_lst \<noteq> []" using gt by (cases node_lst rule: rev_cases) auto
  then have "?n1 \<in> set (butlast node_lst)" by (rule last_in_set)
  then have n1: "?n1 \<in> set node_lst" by (rule in_set_butlastD)
  have pn: "proper ?n" using n1 n2 "1.prems"(2) by simp
  have all: "\<forall>n \<in> set ?l3. proper n"
    using pn "1.prems"(2) by (auto dest!: in_set_butlastD)
  have len: "length ?l3 = length node_lst - 1" using gt by simp
  show ?case
  proof (cases "2 \<le> length ?l3")
    case True
    from "1.IH" [OF gt refl refl refl refl refl refl True all] r show ?thesis by simp
  next
    case False
    with len gt have "length (butlast (butlast node_lst)) = 0" by simp
    then have "butlast (butlast node_lst) = []" by (simp only: length_0_conv)
    then have "?l3 = [?n]" by simp
    then have "rebuild_loop node_lst = [?n]"
      using r by (simp add: rebuild_loop.simps [of "[?n]"])
    with pn show ?thesis by (simp add: is_leaf_def)
  qed
qed


lemma decode_unfold:
  assumes "tbl \<noteq> []"
    and "rebuild (if length tbl = 1 then setitem tbl OVO ''OVO'' else tbl) = [root]"
    and "\<not> (maxsize < range8_len (8 * int (length packed) - padding)
            \<and> int (length packed) \<le> maxsize)"
  shows "fst (decode packed tbl padding) =
           (if 8 * int (length packed) - padding < 0 then Inr []
            else case walk_items root (root, [])
                        (take (nat (8 * int (length packed) - padding)) (concat (map dic packed))) of
                   Inl e \<Rightarrow> Inl e
                 | Inr (cur, out) \<Rightarrow> Inr out)"
proof -
  let ?n = "8 * int (length packed) - padding"
  let ?rb = "slice_to (concat (map dic packed)) ?n"
  have d: "fst (decode packed tbl padding) =
             (case walk_chunks root ?rb (root, []) (range8 ?n) of
                Inl e \<Rightarrow> Inl e
              | Inr (cur, out) \<Rightarrow> Inr out)"
    using assms by (auto simp: decode_def Let_def split: sum.splits)
  show ?thesis
  proof (cases "?n < 0")
    case True
    then have "range8 ?n = []" by (simp add: range8_nonpos)
    with True show ?thesis by (simp add: d)
  next
    case False
    then have rb: "?rb = take (nat ?n) (concat (map dic packed))"
      by (simp add: slice_to_def)
    have "int (length (take (nat ?n) (concat (map dic packed)))) \<le> ?n" using False by simp
    from walk_chunks_range8 [OF this] False show ?thesis
      by (simp only: d rb if_False)
  qed
qed

lemma OVO_not_single: "length k = 1 \<Longrightarrow> k \<noteq> OVO"
  by (auto simp: OVO_def)

lemma rebuild_proper:
  assumes "tbl \<noteq> []" and "\<forall>k \<in> set (map fst tbl). length k = 1"
  shows "\<exists>root. rebuild (if length tbl = 1 then setitem tbl OVO ''OVO'' else tbl) = [root]
           \<and> proper root \<and> \<not> is_leaf root"
proof -
  let ?t = "if length tbl = 1 then setitem tbl OVO ''OVO'' else tbl"
  let ?ns = "sort_key code_key (map (\<lambda>(value, weight). Node (Some value) weight None None) ?t)"
  have "2 \<le> length ?t"
  proof (cases "length tbl = 1")
    case True
    then obtain k c where t: "tbl = [(k, c)]" by (cases tbl) auto
    with assms(2) have "k \<noteq> OVO" by (simp add: OVO_not_single)
    with t show ?thesis by (simp add: setitem_def)
  next
    case False
    with assms(1) have "2 \<le> length tbl"
      by (cases tbl; cases "tl tbl") auto
    with False show ?thesis by simp
  qed
  then have l: "2 \<le> length ?ns" by simp
  have p: "\<forall>n \<in> set ?ns. proper n" by auto
  from rebuild_loop_proper [OF l p] show ?thesis by (simp add: rebuild_def)
qed

lemma decode_no_error:
  assumes "\<forall>k \<in> set (map fst tbl). length k = 1"
    and "\<not> (maxsize < range8_len (8 * int (length packed) - padding)
            \<and> int (length packed) \<le> maxsize)"
  shows "\<exists>out. fst (decode packed tbl padding) = Inr out
            \<and> (8 * int (length packed) \<le> padding \<longrightarrow> out = [])"
proof (cases "tbl = []")
  case True
  then show ?thesis by (simp add: decode_def)
next
  case False
  from rebuild_proper [OF False assms(1)] obtain root where
    r: "rebuild (if length tbl = 1 then setitem tbl OVO ''OVO'' else tbl) = [root]"
       "proper root" "\<not> is_leaf root" by blast
  let ?n = "8 * int (length packed) - padding"
  let ?rb = "take (nat ?n) (concat (map dic packed))"
  from walk_items_total [OF r(2,3) r(2,3), of "[]" ?rb] obtain cur out where
    w: "walk_items root (root, []) ?rb = Inr (cur, out)" by blast
  note u = decode_unfold [OF False r(1) assms(2)]
  show ?thesis
  proof (cases "8 * int (length packed) \<le> padding")
    case True
    then have "?rb = []" by simp
    with w have "out = []" by simp
    with w True show ?thesis by (simp add: u)
  next
    case False
    with w show ?thesis by (simp add: u)
  qed
qed

lemma decode_overflow:
  assumes "tbl \<noteq> []" and "int (length packed) \<le> maxsize"
    and "8 * maxsize < 8 * int (length packed) - padding"
  shows "fst (decode packed tbl padding) = Inl OverflowError"
proof -
  let ?t = "if length tbl = 1 then setitem tbl OVO ''OVO'' else tbl"
  let ?ns = "sort_key code_key (map (\<lambda>(value, weight). Node (Some value) weight None None) ?t)"
  have "?t \<noteq> []" using assms(1) by (cases tbl) (auto simp: setitem_def)
  then have "length ?ns \<noteq> 0" by (simp only: length_sort length_map length_0_conv) simp
  then have "?ns \<noteq> []" by (simp only: length_0_conv) simp
  from length_rebuild_loop [OF this] obtain root where r: "rebuild ?t = [root]"
    by (auto simp: rebuild_def length_Suc_conv)
  have "0 \<le> maxsize" by (simp add: maxsize_def)
  with assms(3) have "maxsize < range8_len (8 * int (length packed) - padding)"
    unfolding range8_len_def by (simp split: if_splits)
  with assms(1,2) r show ?thesis by (simp add: decode_def Let_def)
qed

text \<open>
  C10. For every non-empty code table whose keys are one-byte symbols, every packed
  byte sequence and every padding from 0 to \<open>8 * len(packed)\<close>: the loop of lines
  109-116 ends with a single tree, in which every node has no child or two children
  and whose root has children; the walk of lines 131-141 goes back to the root at each
  childless node, so it never reads a child of a childless node, and
  \<open>Node.decode\<close> returns a byte sequence and no error.
\<close>

theorem decode_total:
  assumes "table \<noteq> []"
    and "\<forall>k \<in> set (map fst table). length k = 1"
    and "0 \<le> padding" and "padding \<le> 8 * int (length packed)"
  shows "\<exists>root out.
           rebuild (if length table = 1 then setitem table OVO ''OVO'' else table) = [root]
           \<and> full root \<and> \<not> is_leaf root
           \<and> fst (decode packed table padding) = Inr out"
proof -
  from rebuild_proper [OF assms(1,2)] obtain root where
    r: "rebuild (if length table = 1 then setitem table OVO ''OVO'' else table) = [root]"
       "proper root" "\<not> is_leaf root" by blast
  from decode_no_error [OF assms(2) no_overflow [OF assms(3)]] obtain out where
    "fst (decode packed table padding) = Inr out" by blast
  with r proper_full [OF r(2)] show ?thesis by blast
qed

theorem decode_total_witness:
  "\<exists>root out. rebuild [([0x4F], ''0''), ([0x56], ''1'')] = [root]
      \<and> full root \<and> \<not> is_leaf root
      \<and> fst (decode [0x40] [([0x4F], ''0''), ([0x56], ''1'')] 5) = Inr out"
  using decode_total [of "[([0x4F], ''0''), ([0x56], ''1'')]" 5 "[0x40]"]
  by simp

section \<open>\<open>Node.decode\<close> and the padding\<close>

text \<open>
  C7, as the code has it. With the padding 8 on one packed byte, a value outside 0..7
  and equal to the number of bits, \<open>Node.decode\<close> raises nothing and returns the
  empty byte sequence.
\<close>

theorem decode_padding_8_accepted:
  "fst (decode [0] [([0x4F], ''0''), ([0x56], ''1'')] 8) = Inr []"
  by code_simp

text \<open>
  C7, amended. \<open>Node.decode\<close> has no check of the padding. For a code table whose
  keys are one-byte symbols and a padding below 0, above 7, or at least
  \<open>8 * len(packed)\<close>: as long as \<open>8 * len(packed) - padding\<close> is at most
  \<open>8 * sys.maxsize\<close>, the call is not rejected; it returns a byte sequence, and the
  empty byte sequence when the padding is at least \<open>8 * len(packed)\<close>. Only for a
  padding so far below 0 that \<open>8 * len(packed) - padding\<close> exceeds \<open>8 * sys.maxsize\<close>
  does the call on a non-empty table fail, with the \<open>OverflowError\<close> of \<open>len()\<close> on
  the range of line 131.
\<close>

theorem decode_padding_unchecked:
  assumes "\<forall>k \<in> set (map fst table). length k = 1"
    and "padding < 0 \<or> 7 < padding \<or> 8 * int (length packed) \<le> padding"
  shows "(8 * int (length packed) - padding \<le> 8 * maxsize \<longrightarrow>
            (\<exists>out. fst (decode packed table padding) = Inr out
               \<and> (8 * int (length packed) \<le> padding \<longrightarrow> out = [])))
         \<and> (8 * maxsize < 8 * int (length packed) - padding \<longrightarrow>
              table \<noteq> [] \<longrightarrow> int (length packed) \<le> maxsize \<longrightarrow>
              fst (decode packed table padding) = Inl OverflowError)"
proof (intro conjI impI)
  assume "8 * int (length packed) - padding \<le> 8 * maxsize"
  then have "range8_len (8 * int (length packed) - padding) \<le> maxsize"
    by (rule range8_len_bound) (simp add: maxsize_def)
  then have "\<not> (maxsize < range8_len (8 * int (length packed) - padding)
               \<and> int (length packed) \<le> maxsize)"
    by simp
  with assms(1) show "\<exists>out. fst (decode packed table padding) = Inr out
                         \<and> (8 * int (length packed) \<le> padding \<longrightarrow> out = [])"
    by (rule decode_no_error)
next
  assume "8 * maxsize < 8 * int (length packed) - padding" "table \<noteq> []"
    "int (length packed) \<le> maxsize"
  then show "fst (decode packed table padding) = Inl OverflowError"
    by (intro decode_overflow)
qed

theorem decode_padding_unchecked_witness:
  "(\<exists>out. fst (decode [0] [([0x4F], ''0''), ([0x56], ''1'')] 8) = Inr out \<and> out = [])
   \<and> fst (decode [0] [([0x4F], ''0''), ([0x56], ''1'')] (- (2 ^ 66))) = Inl OverflowError"
  using decode_padding_unchecked [of "[([0x4F], ''0''), ([0x56], ''1'')]" 8 "[0]"]
    decode_padding_unchecked [of "[([0x4F], ''0''), ([0x56], ''1'')]" "- (2 ^ 66)" "[0]"]
  by (simp add: maxsize_def)

section \<open>\<open>Node.decode\<close> and its dictionary argument\<close>

lemma decode_table_after:
  "snd (decode str_bytes huffman_dic padding) =
     (if length huffman_dic = 1 then setitem huffman_dic OVO ''OVO'' else huffman_dic)"
  by (auto simp: decode_def Let_def split: list.splits sum.splits prod.splits)

text \<open>
  C5, as the code has it. The claim is that the code table is the same before and after
  \<open>Node.decode\<close>. On the table that \<open>Node.build\<close> makes for the single symbol
  \<open>A\<close>, with the packed byte and the padding that \<open>Node.encode\<close> gives for five
  \<open>A\<close>, the call returns the five bytes, and the caller's table has afterwards the
  second entry \<open>b'OVO': 'OVO'\<close> that line 104 has stored in it.
\<close>

theorem decode_single_entry_table_after:
  "decode [0] [([0x41], ''0'')] 3 =
     (Inr [0x41, 0x41, 0x41, 0x41, 0x41], [([0x41], ''0''), ([0x4F, 0x56, 0x4F], ''OVO'')])"
  by code_simp

section \<open>\<open>Node.build\<close>: the tree and the code table\<close>

lemma leaf_keys_leaf [simp]: "leaf_keys (Node (Some k) w None None) = [k]"
  by (simp add: leaf_keys_def)

lemma leaf_keys_merge [simp]: "leaf_keys (Node v w (Some l) (Some r)) = leaf_keys l @ leaf_keys r"
  by (simp add: leaf_keys_def case_prod_unfold comp_def)

lemma paths_nonempty: "proper n \<Longrightarrow> paths n \<noteq> []"
  by (induction n rule: proper.induct) auto

lemma paths_leaf: "proper n \<Longrightarrow> is_leaf n \<Longrightarrow> \<exists>k. paths n = [([], k)]"
  by (induction n rule: proper.induct) (auto simp: is_leaf_def)

lemma paths_inner: "\<not> is_leaf n \<Longrightarrow> (p, k) \<in> set (paths n) \<Longrightarrow> p \<noteq> []"
  by (induction n rule: paths.induct) (auto simp: is_leaf_def)

lemma paths_bits: "(p, k) \<in> set (paths n) \<Longrightarrow> list_all is_bit p"
  by (induction n arbitrary: p rule: paths.induct) (auto simp: is_bit_def split: option.splits)

lemma paths_prefix_free:
  "(p1, k1) \<in> set (paths n) \<Longrightarrow> (p2, k2) \<in> set (paths n) \<Longrightarrow> prefix p1 p2 \<Longrightarrow>
     p1 = p2 \<and> k1 = k2"
  by (induction n arbitrary: p1 p2 rule: paths.induct) (auto split: option.splits)

lemma adjust_insert:
  "index < length lst \<Longrightarrow>
     \<exists>j \<le> index. adjust lst index a = take j lst @ a # drop j (take index lst) @ drop (Suc index) lst"
proof (induction lst index a rule: adjust.induct)
  case (1 lst i a)
  show ?case
  proof (cases "i \<noteq> 0 \<and> weight (lst ! (i - 1)) \<le> weight a")
    case True
    then obtain i' where i: "i = Suc i'" by (cases i) auto
    let ?lst' = "lst[i := lst ! (i - 1)]"
    have "i - 1 < length ?lst'" using "1.prems" i by simp
    from "1.IH" [OF True this] obtain j where j: "j \<le> i'" and
      a: "adjust ?lst' i' a = take j ?lst' @ a # drop j (take i' ?lst') @ drop (Suc i') ?lst'"
      using i by auto
    have t1: "take j ?lst' = take j lst" using j i by simp
    have t2: "take i' ?lst' = take i' lst" using i by simp
    have t3: "drop (Suc i') ?lst' = lst ! i' # drop (Suc i) lst"
      using "1.prems" i by (simp add: drop_update_swap [symmetric] Cons_nth_drop_Suc [symmetric])
    have t4: "drop j (take i lst) = drop j (take i' lst) @ [lst ! i']"
      using "1.prems" i j by (simp add: take_Suc_conv_app_nth)
    have "adjust lst i a = adjust ?lst' i' a"
      using True i by (subst adjust.simps) simp
    also have "\<dots> = take j lst @ a # drop j (take i lst) @ drop (Suc i) lst"
      unfolding a t1 t2 t3 t4 by simp
    finally show ?thesis using j i by (intro exI [of _ j]) simp
  next
    case False
    then have "adjust lst i a = lst[i := a]" by (subst adjust.simps) auto
    also have "\<dots> = take i lst @ a # drop i (take i lst) @ drop (Suc i) lst"
      using "1.prems" by (simp add: upd_conv_take_nth_drop)
    finally show ?thesis by blast
  qed
qed

lemma adjust_snoc:
  "\<exists>pre post. xs = pre @ post \<and> adjust (xs @ [a]) (length (xs @ [a]) - 1) a = pre @ a # post"
proof -
  from adjust_insert [of "length xs" "xs @ [a]" a] obtain j where
    "j \<le> length xs"
    "adjust (xs @ [a]) (length xs) a =
       take j (xs @ [a]) @ a # drop j (take (length xs) (xs @ [a])) @ drop (Suc (length xs)) (xs @ [a])"
    by auto
  then have "adjust (xs @ [a]) (length (xs @ [a]) - 1) a = take j xs @ a # drop j xs" by simp
  moreover have "xs = take j xs @ drop j xs" by simp
  ultimately show ?thesis by blast
qed

lemma build_loop_inv:
  assumes "node_lst \<noteq> []" "\<forall>n \<in> set node_lst. proper n" "distinct (concat (map leaf_keys node_lst))"
  shows "\<exists>root. build_loop node_lst = [root] \<and> proper root \<and> distinct (leaf_keys root)
            \<and> set (leaf_keys root) = set (concat (map leaf_keys node_lst))"
  using assms
proof (induction node_lst rule: build_loop.induct)
  case (1 node_lst)
  show ?case
  proof (cases "1 < length node_lst")
    case True
    then obtain xs n1 n2 where dec: "node_lst = xs @ [n1, n2]"
      by (cases node_lst rule: rev_cases; cases "butlast node_lst" rule: rev_cases) auto
    let ?a = "Node None (weight n1 + weight n2) (Some n1) (Some n2)"
    from adjust_snoc [of xs ?a] obtain pre post where
      pp: "xs = pre @ post" "adjust (xs @ [?a]) (length (xs @ [?a]) - 1) ?a = pre @ ?a # post"
      by blast
    let ?l = "pre @ ?a # post"
    have sel: "last node_lst = n2" "last (butlast node_lst) = n1"
      "butlast (butlast node_lst) = xs" "length node_lst - Suc (Suc 0) = length xs"
      by (simp_all add: dec butlast_append)
    have r: "build_loop node_lst = build_loop ?l"
      using True pp(2) by (subst build_loop.simps) (simp add: Let_def sel)
    have pr: "\<forall>n \<in> set ?l. proper n"
      using "1.prems"(2) by (auto simp: dec pp(1))
    have dist: "distinct (concat (map leaf_keys ?l))"
      using "1.prems"(3) by (auto simp: dec pp(1))
    have st: "set (concat (map leaf_keys ?l)) = set (concat (map leaf_keys node_lst))"
      by (auto simp: dec pp(1))
    note ih = "1.IH" [OF True refl refl refl refl refl refl refl, unfolded sel(1-3) pp(2)]
    have "?l \<noteq> []" by simp
    from ih [OF this pr dist] obtain root where
      rt: "build_loop ?l = [root]" "proper root" "distinct (leaf_keys root)"
          "set (leaf_keys root) = set (concat (map leaf_keys ?l))"
      by blast
    have "build_loop node_lst = [root]" using r rt(1) by simp
    moreover have "set (leaf_keys root) = set (concat (map leaf_keys node_lst))"
      using rt(4) st by (rule trans)
    ultimately show ?thesis using rt(2,3) by blast
  next
    case False
    with "1.prems"(1) obtain n where n: "node_lst = [n]" by (cases node_lst) auto
    then have "build_loop node_lst = [n]" by (subst build_loop.simps) simp
    with n "1.prems" show ?thesis by simp
  qed
qed


lemma dlr_keys:
  "proper n \<Longrightarrow> set (leaf_keys n) \<subseteq> fst ` set d \<Longrightarrow> map fst (dlr (Some n) pre d) = map fst d"
proof (induction n arbitrary: pre d rule: proper.induct)
  case (1 v w)
  then show ?case by (auto simp: setitem_def update_keys)
next
  case (2 v w l r)
  from "2.prems" have l: "proper l" "set (leaf_keys l) \<subseteq> fst ` set d"
    and r: "proper r" "set (leaf_keys r) \<subseteq> fst ` set d" by simp_all
  have kl: "map fst (dlr (Some l) (pre @ ''0'') d) = map fst d"
    using "2.IH"(1) l by blast
  then have "fst ` set (dlr (Some l) (pre @ ''0'') d) = fst ` set d"
    by (metis set_map)
  with r(2) have "set (leaf_keys r) \<subseteq> fst ` set (dlr (Some l) (pre @ ''0'') d)" by simp
  from "2.IH"(2) [OF r(1) this] kl show ?case by simp
qed simp_all

lemma dlr_other:
  "proper n \<Longrightarrow> k \<notin> set (leaf_keys n) \<Longrightarrow> map_of (dlr (Some n) pre d) k = map_of d k"
proof (induction n arbitrary: pre d rule: proper.induct)
  case (1 v w)
  then show ?case by (auto simp: setitem_def update_conv')
next
  case (2 v w l r)
  then show ?case by simp
qed simp_all

lemma dlr_path:
  "proper n \<Longrightarrow> distinct (leaf_keys n) \<Longrightarrow> (p, k) \<in> set (paths n) \<Longrightarrow>
     map_of (dlr (Some n) pre d) k = Some (pre @ p)"
proof (induction n arbitrary: pre d p rule: proper.induct)
  case (1 v w)
  then show ?case by (auto simp: setitem_def update_conv')
next
  case (2 v w l r)
  from "2.prems"(1) have pl: "proper l" and pr: "proper r" by simp_all
  from "2.prems"(2) have dl: "distinct (leaf_keys l)" and dr: "distinct (leaf_keys r)"
    and dj: "set (leaf_keys l) \<inter> set (leaf_keys r) = {}" by simp_all
  from "2.prems"(3) consider
    (left) p' where "p = CHR ''0'' # p'" "(p', k) \<in> set (paths l)"
    | (right) p' where "p = CHR ''1'' # p'" "(p', k) \<in> set (paths r)"
    by auto
  then show ?case
  proof cases
    case left
    then have "k \<in> set (leaf_keys l)" by (force simp: leaf_keys_def)
    with dj have "k \<notin> set (leaf_keys r)" by auto
    from dlr_other [OF pr this]
    have "map_of (dlr (Some (Node v w (Some l) (Some r))) pre d) k =
            map_of (dlr (Some l) (pre @ ''0'') d) k"
      by simp
    also have "\<dots> = Some ((pre @ ''0'') @ p')"
      using "2.IH"(1) [OF pl dl left(2)] .
    finally show ?thesis using left(1) by simp
  next
    case right
    have "map_of (dlr (Some (Node v w (Some l) (Some r))) pre d) k =
            map_of (dlr (Some r) (pre @ ''1'') (dlr (Some l) (pre @ ''0'') d)) k"
      by simp
    also have "\<dots> = Some ((pre @ ''1'') @ p')"
      using "2.IH"(2) [OF pr dr right(2)] .
    finally show ?thesis using right(1) by simp
  qed
qed simp_all

lemma leaves_concat:
  "concat (map leaf_keys (map (\<lambda>(value, weight). Node (Some value) weight None None) xs)) = map fst xs"
  by (induction xs) auto

lemma distinct_concat_insort:
  "distinct (concat (map g (insort_key f x xs))) = distinct (concat (map g (x # xs)))"
  by (induction xs) (auto simp: set_insort_key)

lemma distinct_concat_sort:
  "distinct (concat (map g (sort_key f xs))) = distinct (concat (map g xs))"
proof (induction xs)
  case Nil
  show ?case by simp
next
  case (Cons x xs)
  have "distinct (concat (map g (sort_key f (x # xs)))) =
          distinct (concat (map g (x # sort_key f xs)))"
    by (simp add: distinct_concat_insort)
  also have "\<dots> = distinct (concat (map g (x # xs)))"
    using Cons.IH by simp
  finally show ?case .
qed

lemma distinct_concat_rev:
  "distinct (concat (map g (rev xs))) = distinct (concat (map g xs))"
  by (induction xs) auto

lemma build_table:
  assumes "distinct (map fst fre_dic)" and "2 \<le> length fre_dic"
  shows "\<exists>(root :: int node) table. build fre_dic = Inr table \<and> map fst table = map fst fre_dic
           \<and> proper root \<and> \<not> is_leaf root \<and> distinct (leaf_keys root)
           \<and> set table = (\<lambda>(p, k). (k, p)) ` set (paths root)"
proof -
  let ?mk = "\<lambda>(value, weight). Node (Some value) weight None None :: int node"
  let ?ns = "sort_reverse weight (map ?mk fre_dic)"
  let ?init = "map (\<lambda>(key, _). (key, [])) fre_dic :: string dict"
  have "length ?ns = length fre_dic" by (simp add: sort_reverse_def)
  with assms(2) have ne: "?ns \<noteq> []" by auto
  have pr: "\<forall>n \<in> set ?ns. proper n" by (auto simp: sort_reverse_def)
  have di: "distinct (concat (map leaf_keys ?ns))"
    using assms(1)
    by (simp add: sort_reverse_def distinct_concat_rev distinct_concat_sort leaves_concat
        del: map_map)
  have st: "set (concat (map leaf_keys ?ns)) = set (map fst fre_dic)"
  proof -
    have "set (concat (map leaf_keys ?ns)) = set (concat (map leaf_keys (map ?mk fre_dic)))"
      by (simp add: sort_reverse_def del: map_map)
    then show ?thesis by (simp only: leaves_concat)
  qed
  from build_loop_inv [OF ne pr di] obtain root where
    rt: "build_loop ?ns = [root]" "proper root" "distinct (leaf_keys root)"
        "set (leaf_keys root) = set (concat (map leaf_keys ?ns))"
    by blast
  let ?table = "dlr (Some root) [] ?init"
  have keys: "set (leaf_keys root) = set (map fst fre_dic)" using rt(4) st by simp
  have b: "build fre_dic = Inr ?table"
    using assms(2) rt(1) by (auto simp: build_def Let_def)
  have ki: "map fst ?init = map fst fre_dic" by (simp add: case_prod_unfold comp_def)
  have "set (leaf_keys root) \<subseteq> fst ` set ?init"
    using keys ki by (metis set_map subset_refl)
  from dlr_keys [OF rt(2) this] ki
  have kt: "map fst ?table = map fst fre_dic" by simp
  have dt: "distinct (map fst ?table)" using kt assms(1) by simp
  have "set ?table = (\<lambda>(p, k). (k, p)) ` set (paths root)"
  proof (intro set_eqI iffI)
    fix x assume x: "x \<in> set ?table"
    obtain k c where kc: "x = (k, c)" by (cases x)
    with x have "k \<in> set (map fst ?table)" by force
    with kt keys have "k \<in> set (leaf_keys root)" by simp
    then obtain p where p: "(p, k) \<in> set (paths root)" by (auto simp: leaf_keys_def)
    from dlr_path [OF rt(2,3) p, of "[]" ?init]
    have "map_of ?table k = Some p" by simp
    moreover from x kc dt have "map_of ?table k = Some c" by simp
    ultimately have "c = p" by simp
    with p kc show "x \<in> (\<lambda>(p, k). (k, p)) ` set (paths root)" by force
  next
    fix x assume "x \<in> (\<lambda>(p, k). (k, p)) ` set (paths root)"
    then obtain p k where p: "(p, k) \<in> set (paths root)" and x: "x = (k, p)" by auto
    from dlr_path [OF rt(2,3) p, of "[]" ?init]
    have "map_of ?table k = Some p" by simp
    then show "x \<in> set ?table" using x by (auto dest: map_of_SomeD)
  qed
  moreover have "\<not> is_leaf root"
  proof
    assume "is_leaf root"
    from paths_leaf [OF rt(2) this] obtain k where "paths root = [([], k)]" by blast
    then have "set (map fst fre_dic) = {k}" using keys by (simp add: leaf_keys_def)
    then have "card (set (map fst fre_dic)) = 1" by simp
    moreover have "card (set (map fst fre_dic)) = length (map fst fre_dic)"
      using assms(1) by (rule distinct_card)
    ultimately show False using assms(2) by simp
  qed
  ultimately show ?thesis using b kt rt(2,3) by blast
qed

text \<open>
  C2. For every frequency map with at least two symbols (a dictionary: its keys are
  distinct), \<open>Node.build\<close> returns a code table with the keys of the map, in which
  the code of a symbol is never a prefix of the code of another symbol, and in which
  no code is empty.
\<close>

theorem build_prefix_free:
  assumes "distinct (map fst fre_dic)" and "2 \<le> length fre_dic"
  shows "\<exists>table. build fre_dic = Inr table \<and> map fst table = map fst fre_dic
           \<and> (\<forall>(k1, c1) \<in> set table. \<forall>(k2, c2) \<in> set table. k1 \<noteq> k2 \<longrightarrow> \<not> prefix c1 c2)
           \<and> (\<forall>(k, c) \<in> set table. c \<noteq> [])"
proof -
  from build_table [OF assms] obtain root :: "int node" and table where
    t: "build fre_dic = Inr table" "map fst table = map fst fre_dic"
       "proper root" "\<not> is_leaf root"
       "set table = (\<lambda>(p, k). (k, p)) ` set (paths root)"
    by blast
  have pf: "\<forall>(k1, c1) \<in> set table. \<forall>(k2, c2) \<in> set table. k1 \<noteq> k2 \<longrightarrow> \<not> prefix c1 c2"
  proof (clarify)
    fix k1 c1 k2 c2
    assume a: "(k1, c1) \<in> set table" "(k2, c2) \<in> set table" "k1 \<noteq> k2" "prefix c1 c2"
    from a(1,2) t(5) have "(c1, k1) \<in> set (paths root)" "(c2, k2) \<in> set (paths root)"
      by auto
    with a(4) have "k1 = k2" using paths_prefix_free by blast
    with a(3) show False by simp
  qed
  have nonempty: "\<forall>(k, c) \<in> set table. c \<noteq> []"
  proof (clarify)
    fix k assume "(k, []) \<in> set table"
    with t(5) have "([], k) \<in> set (paths root)" by auto
    with t(4) show False using paths_inner by blast
  qed
  from t(1,2) pf nonempty show ?thesis by blast
qed

theorem build_prefix_free_witness:
  "\<exists>table. build [([1], 5), ([2], 1), ([3], 1), ([4], 2)] = Inr table
      \<and> map fst table = [[1], [2], [3], [4]]
      \<and> (\<forall>(k1, c1) \<in> set table. \<forall>(k2, c2) \<in> set table. k1 \<noteq> k2 \<longrightarrow> \<not> prefix c1 c2)
      \<and> (\<forall>(k, c) \<in> set table. c \<noteq> [])"
  using build_prefix_free [of "[([1], 5), ([2], 1), ([3], 1), ([4], 2)]"]
  by simp

section \<open>\<open>Node.decode\<close>: the tree rebuilt from the code table\<close>

lemma flip_neq: "flip x \<noteq> x"
  by (simp add: flip_def)

lemma flip_bit: "is_bit x \<Longrightarrow> is_bit (flip x) \<and> flip (flip x) = x"
  by (auto simp: flip_def is_bit_def)

lemma lex_append_same: "(q @ xs \<le> q @ ys) = (xs \<le> (ys :: string))"
  by (induction q) simp_all

lemma lex_sandwich:
  "length w = Suc (length q) \<Longrightarrow> q @ [a] \<le> w \<Longrightarrow> w \<le> q @ [b] \<Longrightarrow> \<exists>c. w = q @ [c :: char]"
proof (induction q arbitrary: w)
  case Nil
  then show ?case by (cases w) auto
next
  case (Cons z q)
  from Cons.prems(1) obtain y w' where w: "w = y # w'" "length w' = Suc (length q)"
    by (cases w) auto
  from Cons.prems(2,3) w(1) have "y = z" "q @ [a] \<le> w'" "w' \<le> q @ [b]" by auto
  with Cons.IH [OF w(2)] w(1) show ?case by auto
qed

lemma complete_code_single: "complete_code {w} \<Longrightarrow> w = []"
proof (rule ccontr)
  assume c: "complete_code {w}" and "w \<noteq> []"
  then obtain q x where w: "w = q @ [x]" by (cases w rule: rev_cases) auto
  from c have "\<exists>c' \<in> {w}. prefix (q @ [flip x]) c'"
    unfolding complete_code_def using w by blast
  then have "prefix (q @ [flip x]) (q @ [x])" using w by simp
  then show False using flip_neq [of x] by simp
qed

lemma prefix_full: "prefix (q @ [x]) c \<Longrightarrow> length c \<le> Suc (length q) \<Longrightarrow> c = q @ [x]"
proof -
  assume p: "prefix (q @ [x]) c" and l: "length c \<le> Suc (length q)"
  from p obtain r where c: "c = (q @ [x]) @ r" by (auto simp: prefix_def)
  with l have "r = []" by simp
  with c show ?thesis by simp
qed

lemma complete_code_sibling:
  assumes "complete_code S" "q @ [x] \<in> S" "\<forall>c \<in> S. length c \<le> Suc (length q)"
  shows "q @ [flip x] \<in> S"
proof -
  from assms(1,2) obtain c' where c': "c' \<in> S" "prefix (q @ [flip x]) c'"
    unfolding complete_code_def by blast
  from c'(1) assms(3) have "length c' \<le> Suc (length q)" by blast
  with c'(2) have "c' = q @ [flip x]" by (rule prefix_full)
  with c'(1) show ?thesis by simp
qed


lemma prefix_proper_full:
  "prefix q c \<Longrightarrow> c \<noteq> q \<Longrightarrow> length c \<le> Suc (length q) \<Longrightarrow> \<exists>y. c = q @ [y]"
proof -
  assume p: "prefix q c" and n: "c \<noteq> q" and l: "length c \<le> Suc (length q)"
  from p obtain r where c: "c = q @ r" by (auto simp: prefix_def)
  with n obtain y r' where r: "r = y # r'" by (cases r) auto
  with c l have "r' = []" by simp
  with c r show ?thesis by simp
qed

lemma bit_cases: "is_bit y \<Longrightarrow> q @ [y] = q @ ''0'' \<or> q @ [y] = q @ ''1''"
  by (auto simp: is_bit_def)

lemma complete_code_join:
  assumes "complete_code A" "complete_code B" "A \<noteq> {}" "B \<noteq> {}"
  shows "complete_code ((#) CHR ''0'' ` A \<union> (#) CHR ''1'' ` B)"
  unfolding complete_code_def
proof (intro conjI allI impI ballI)
  fix c assume "c \<in> (#) CHR ''0'' ` A \<union> (#) CHR ''1'' ` B"
  with assms(1,2) show "list_all is_bit c" by (auto simp: complete_code_def is_bit_def)
next
  fix a b
  assume "a \<in> (#) CHR ''0'' ` A \<union> (#) CHR ''1'' ` B"
    "b \<in> (#) CHR ''0'' ` A \<union> (#) CHR ''1'' ` B" "prefix a b"
  with assms(1,2) show "a = b" by (auto simp: complete_code_def)
next
  fix q x
  assume "\<exists>c \<in> (#) CHR ''0'' ` A \<union> (#) CHR ''1'' ` B. prefix (q @ [x]) c"
  then obtain c where c: "c \<in> (#) CHR ''0'' ` A \<union> (#) CHR ''1'' ` B" "prefix (q @ [x]) c"
    by blast
  show "\<exists>c' \<in> (#) CHR ''0'' ` A \<union> (#) CHR ''1'' ` B. prefix (q @ [flip x]) c'"
  proof (cases q)
    case Nil
    from assms(3,4) obtain a b where ab: "a \<in> A" "b \<in> B" by blast
    from c Nil have "x = CHR ''0'' \<or> x = CHR ''1''" by auto
    then show ?thesis
    proof
      assume "x = CHR ''0''"
      then have "prefix (q @ [flip x]) (CHR ''1'' # b)" using Nil by (simp add: flip_def)
      with ab(2) show ?thesis by blast
    next
      assume "x = CHR ''1''"
      then have "prefix (q @ [flip x]) (CHR ''0'' # a)" using Nil by (simp add: flip_def)
      with ab(1) show ?thesis by blast
    qed
  next
    case (Cons z q')
    from c Cons consider
      (l) c0 where "z = CHR ''0''" "c = z # c0" "c0 \<in> A" "prefix (q' @ [x]) c0"
      | (r) c0 where "z = CHR ''1''" "c = z # c0" "c0 \<in> B" "prefix (q' @ [x]) c0"
      by auto
    then show ?thesis
    proof cases
      case l
      with assms(1) obtain c1 where "c1 \<in> A" "prefix (q' @ [flip x]) c1"
        unfolding complete_code_def by blast
      then have "z # c1 \<in> (#) CHR ''0'' ` A \<union> (#) CHR ''1'' ` B" "prefix (q @ [flip x]) (z # c1)"
        using l(1) Cons by simp_all
      then show ?thesis by blast
    next
      case r
      with assms(2) obtain c1 where "c1 \<in> B" "prefix (q' @ [flip x]) c1"
        unfolding complete_code_def by blast
      then have "z # c1 \<in> (#) CHR ''0'' ` A \<union> (#) CHR ''1'' ` B" "prefix (q @ [flip x]) (z # c1)"
        using r(1) Cons by simp_all
      then show ?thesis by blast
    qed
  qed
qed

lemma paths_cpc: "proper n \<Longrightarrow> complete_code (fst ` set (paths n))"
proof (induction n rule: proper.induct)
  case (1 v w)
  then show ?case by (auto simp: complete_code_def)
next
  case (2 v w l r)
  have ne: "fst ` set (paths l) \<noteq> {}" "fst ` set (paths r) \<noteq> {}"
    using "2.prems" paths_nonempty by auto
  have "fst ` set (paths (Node v w (Some l) (Some r))) =
          (#) CHR ''0'' ` fst ` set (paths l) \<union> (#) CHR ''1'' ` fst ` set (paths r)"
    by (force simp: image_Un image_image case_prod_unfold)
  with complete_code_join [OF _ _ ne] "2.IH" "2.prems" show ?case by simp
qed simp_all

lemma complete_code_merge:
  assumes "complete_code S" and q0: "q @ ''0'' \<in> S" and q1: "q @ ''1'' \<in> S"
    and len: "\<forall>c \<in> S. length c \<le> Suc (length q)"
  shows "q \<notin> S" and "complete_code (insert q (S - {q @ ''0'', q @ ''1''}))"
proof -
  let ?S' = "insert q (S - {q @ ''0'', q @ ''1''})"
  have bits: "\<forall>c \<in> S. list_all is_bit c"
    and pf: "\<And>a b. a \<in> S \<Longrightarrow> b \<in> S \<Longrightarrow> prefix a b \<Longrightarrow> a = b"
    and sc: "\<And>p x c. c \<in> S \<Longrightarrow> prefix (p @ [x]) c \<Longrightarrow> \<exists>c' \<in> S. prefix (p @ [flip x]) c'"
    using assms(1) unfolding complete_code_def by blast+
  show nq: "q \<notin> S"
  proof
    assume "q \<in> S"
    from pf [OF this q0] show False by simp
  qed
  have ext: "False" if "c \<in> S" "c \<noteq> q @ ''0''" "c \<noteq> q @ ''1''" "prefix q c" for c
  proof -
    from that(1) nq have "c \<noteq> q" by auto
    from prefix_proper_full [OF that(4) this] len that(1) obtain y where y: "c = q @ [y]"
      by blast
    with bits that(1) have "is_bit y" by auto
    from bit_cases [OF this, of q] y that(2,3) show False by simp
  qed
  show "complete_code ?S'"
    unfolding complete_code_def
  proof (intro conjI allI impI ballI)
    fix c assume "c \<in> ?S'"
    moreover have "list_all is_bit q" using bits q0 by fastforce
    ultimately show "list_all is_bit c" using bits by auto
  next
    fix a b assume a: "a \<in> ?S'" and b: "b \<in> ?S'" and p: "prefix a b"
    show "a = b"
    proof (cases "a = q")
      case True
      show ?thesis
      proof (rule ccontr)
        assume "a \<noteq> b"
        with True b have "b \<in> S" "b \<noteq> q @ ''0''" "b \<noteq> q @ ''1''" by auto
        from ext [OF this] p True show False by simp
      qed
    next
      case False
      with a have as: "a \<in> S" "a \<noteq> q @ ''0''" by auto
      show ?thesis
      proof (cases "b = q")
        case True
        with p have "prefix a (q @ ''0'')" by (simp add: prefix_prefix)
        from pf [OF as(1) q0 this] as(2) show ?thesis by simp
      next
        case False
        with b have "b \<in> S" by auto
        from pf [OF as(1) this p] show ?thesis .
      qed
    qed
  next
    fix p x assume "\<exists>c \<in> ?S'. prefix (p @ [x]) c"
    then obtain c where c: "c \<in> ?S'" "prefix (p @ [x]) c" by blast
    have "\<exists>c0 \<in> S. prefix (p @ [x]) c0"
    proof (cases "c = q")
      case True
      with c(2) have "prefix (p @ [x]) (q @ ''0'')" by (simp add: prefix_prefix)
      with q0 show ?thesis by blast
    next
      case False
      with c show ?thesis by auto
    qed
    then obtain c0 where "c0 \<in> S" "prefix (p @ [x]) c0" by blast
    from sc [OF this] obtain c1 where c1: "c1 \<in> S" "prefix (p @ [flip x]) c1" by blast
    show "\<exists>c' \<in> ?S'. prefix (p @ [flip x]) c'"
    proof (cases "c1 = q @ ''0'' \<or> c1 = q @ ''1''")
      case False
      with c1 show ?thesis by auto
    next
      case True
      then obtain y where y: "c1 = q @ [y]" by auto
      with c1(2) have "p @ [flip x] = q @ [y] \<or> prefix (p @ [flip x]) q" by simp
      then show ?thesis
      proof
        assume "prefix (p @ [flip x]) q"
        then show ?thesis by blast
      next
        assume "p @ [flip x] = q @ [y]"
        then have pq: "p = q" by simp
        have "c \<noteq> q" using c(2) pq by (auto simp: prefix_def)
        with c(1) have cs: "c \<in> S" "c \<noteq> q @ ''0''" "c \<noteq> q @ ''1''" by auto
        have "prefix q c" using c(2) pq by (auto simp: prefix_def)
        from ext [OF cs this] show ?thesis ..
      qed
    qed
  qed
qed


lemma distinct_map_sort_key: "distinct (map f (sort_key g xs)) = distinct (map f xs)"
  by (simp add: distinct_map)

lemma leaf_codes_merge:
  assumes "weight n1 = q @ ''0''" "weight n2 = q @ ''1''"
  shows "set (leaf_codes (Node None q (Some n1) (Some n2))) =
           set (leaf_codes n1) \<union> set (leaf_codes n2)"
  using assms by (auto simp: leaf_codes_def image_Un image_image case_prod_unfold)

lemma last_two_siblings:
  assumes "forest_inv T (xs @ [n1, n2])"
  shows "\<exists>q. weight n1 = q @ ''0'' \<and> weight n2 = q @ ''1''
            \<and> (\<forall>c \<in> set (map weight (xs @ [n1, n2])). length c \<le> Suc (length q))"
proof -
  let ?W = "set (map weight (xs @ [n1, n2]))"
  let ?m = "weight n2" and ?w1 = "weight n1"
  from assms have srt: "sorted (map code_key (xs @ [n1, n2]))"
    and dist: "distinct (map weight (xs @ [n1, n2]))"
    and complete_code: "complete_code ?W"
    by (simp_all add: forest_inv_def)
  from srt have k1: "\<forall>x \<in> set xs. code_key x \<le> code_key n1"
    and k12: "code_key n1 \<le> code_key n2"
    by (auto simp: sorted_append)
  have kmax: "code_key y \<le> code_key n2" if "y \<in> set (xs @ [n1, n2])" for y
    using that k1 k12 by (auto intro: order_trans)
  have kmax1: "code_key y \<le> code_key n1" if "y \<in> set (xs @ [n1])" for y
    using that k1 by auto
  have len: "\<forall>c \<in> ?W. length c \<le> length ?m"
  proof
    fix c assume "c \<in> ?W"
    then obtain y where "y \<in> set (xs @ [n1, n2])" "c = weight y" by auto
    with kmax [of y] show "length c \<le> length ?m" by (auto simp: code_key_def)
  qed
  from dist have ne12: "?w1 \<noteq> ?m" by auto
  have "?m \<noteq> []"
  proof
    assume "?m = []"
    moreover from len have "length ?w1 \<le> length ?m" by simp
    ultimately show False using ne12 by simp
  qed
  then obtain q x where m: "?m = q @ [x]" by (cases ?m rule: rev_cases) auto
  have len': "\<forall>c \<in> ?W. length c \<le> Suc (length q)" using len m by simp
  have mW: "q @ [x] \<in> ?W" using m by simp
  from complete_code_sibling [OF complete_code mW len'] have sib: "q @ [flip x] \<in> ?W" .
  have bits: "\<forall>c \<in> ?W. list_all is_bit c" using complete_code by (simp add: complete_code_def)
  with mW have bx: "is_bit x" by fastforce
  have x1: "x = CHR ''1''"
  proof (rule ccontr)
    assume "x \<noteq> CHR ''1''"
    with bx have x0: "x = CHR ''0''" by (simp add: is_bit_def)
    have "flip CHR ''0'' = CHR ''1''" by (simp add: flip_def)
    with sib x0 have "q @ ''1'' \<in> ?W" by simp
    then have "q @ ''1'' \<in> weight ` set (xs @ [n1, n2])" by (simp only: set_map)
    then obtain y where y: "y \<in> set (xs @ [n1, n2])" "weight y = q @ ''1''"
      by (elim imageE) simp
    from kmax [OF y(1)] y(2) m x0 have "q @ ''1'' \<le> q @ ''0''"
      by (auto simp: code_key_def)
    then show False by (simp add: lex_append_same)
  qed
  with sib have q0: "q @ ''0'' \<in> ?W" by (simp add: flip_def)
  have "q @ ''0'' \<noteq> ?m" using m x1 by simp
  with q0 have "q @ ''0'' \<in> weight ` set (xs @ [n1])" by auto
  then obtain y where y: "y \<in> set (xs @ [n1])" "weight y = q @ ''0''"
    by (elim imageE) simp
  from kmax1 [OF y(1)] y(2)
  have lo: "Suc (length q) < length ?w1 \<or> Suc (length q) \<le> length ?w1 \<and> q @ ''0'' \<le> ?w1"
    by (simp add: code_key_def)
  from k12 m x1
  have hi: "length ?w1 < Suc (length q) \<or> length ?w1 \<le> Suc (length q) \<and> ?w1 \<le> q @ ''1''"
    by (simp add: code_key_def)
  from len' have "length ?w1 \<le> Suc (length q)" by simp
  with lo hi have l1: "length ?w1 = Suc (length q)" and b1: "q @ ''0'' \<le> ?w1" "?w1 \<le> q @ ''1''"
    by auto
  from lex_sandwich [OF l1 b1] obtain c where c: "?w1 = q @ [c]" by blast
  from bits c have "is_bit c" by fastforce
  moreover have "c \<noteq> CHR ''1''" using ne12 c m x1 by auto
  ultimately have "c = CHR ''0''" by (simp add: is_bit_def)
  with c m x1 len' show ?thesis by auto
qed

lemma rebuild_step:
  assumes "forest_inv T (xs @ [n1, n2])"
  shows "forest_inv T (sort_key code_key (xs @ [Node None (butlast (weight n1)) (Some n1) (Some n2)]))"
proof -
  let ?W = "set (map weight (xs @ [n1, n2]))"
  from last_two_siblings [OF assms] obtain q where
    w: "weight n1 = q @ ''0''" "weight n2 = q @ ''1''"
    and len: "\<forall>c \<in> ?W. length c \<le> Suc (length q)"
    by blast
  let ?a = "Node None q (Some n1) (Some n2)"
  from assms have pr: "\<forall>n \<in> set (xs @ [n1, n2]). proper n"
    and dist: "distinct (map weight (xs @ [n1, n2]))"
    and complete_code: "complete_code ?W"
    and un: "(\<Union>n \<in> set (xs @ [n1, n2]). set (leaf_codes n)) = T"
    by (simp_all add: forest_inv_def)
  have q0: "q @ ''0'' \<in> ?W" and q1: "q @ ''1'' \<in> ?W" using w by simp_all
  from complete_code_merge [OF complete_code q0 q1 len]
  have nq: "q \<notin> ?W" and cm: "complete_code (insert q (?W - {q @ ''0'', q @ ''1''}))" .
  have wx: "set (map weight xs) = ?W - {q @ ''0'', q @ ''1''}"
    using dist w by auto
  have a1: "\<forall>n \<in> set (xs @ [?a]). proper n" using pr by simp
  have a2: "distinct (map weight (xs @ [?a]))" using dist nq by auto
  have "set (map weight (xs @ [?a])) = insert q (set (map weight xs))" by simp
  also have "\<dots> = insert q (?W - {q @ ''0'', q @ ''1''})" by (simp only: wx)
  finally have a3: "complete_code (set (map weight (xs @ [?a])))" using cm by (simp only:)
  have a4: "(\<Union>n \<in> set (xs @ [?a]). set (leaf_codes n)) = T"
    using un leaf_codes_merge [OF w] by auto
  have bl: "butlast (weight n1) = q" using w(1) by (simp add: butlast_append)
  show ?thesis
    unfolding forest_inv_def bl
  proof (intro conjI)
    show "\<forall>n \<in> set (sort_key code_key (xs @ [?a])). proper n" using a1 by simp
    show "sorted (map code_key (sort_key code_key (xs @ [?a])))" by (rule sorted_sort_key)
    show "distinct (map weight (sort_key code_key (xs @ [?a])))"
      using a2 by (simp only: distinct_map_sort_key)
    show "complete_code (set (map weight (sort_key code_key (xs @ [?a]))))" using a3 by simp
    show "(\<Union>n \<in> set (sort_key code_key (xs @ [?a])). set (leaf_codes n)) = T"
      using a4 by simp
  qed
qed

lemma rebuild_loop_inv:
  assumes "forest_inv T node_lst" "node_lst \<noteq> []"
  shows "\<exists>root. rebuild_loop node_lst = [root] \<and> proper root \<and> weight root = []
            \<and> set (leaf_codes root) = T"
  using assms
proof (induction node_lst rule: rebuild_loop.induct)
  case (1 node_lst)
  show ?case
  proof (cases "1 < length node_lst")
    case True
    then obtain xs n1 n2 where dec: "node_lst = xs @ [n1, n2]"
      by (cases node_lst rule: rev_cases; cases "butlast node_lst" rule: rev_cases) auto
    let ?l = "sort_key code_key (xs @ [Node None (butlast (weight n1)) (Some n1) (Some n2)])"
    have sel: "last node_lst = n2" "last (butlast node_lst) = n1"
      "butlast (butlast node_lst) = xs"
      by (simp_all add: dec butlast_append)
    have r: "rebuild_loop node_lst = rebuild_loop ?l"
      using True by (subst rebuild_loop.simps) (simp add: Let_def sel)
    have iv: "forest_inv T ?l" using "1.prems"(1) unfolding dec by (rule rebuild_step)
    have ne: "?l \<noteq> []" by (metis length_sort length_0_conv snoc_eq_iff_butlast)
    note ih = "1.IH" [OF True refl refl refl refl refl refl, unfolded sel]
    from ih [OF iv ne] r show ?thesis by simp
  next
    case False
    with "1.prems"(2) obtain n where n: "node_lst = [n]" by (cases node_lst) auto
    then have e: "rebuild_loop node_lst = [n]" by (subst rebuild_loop.simps) simp
    from "1.prems"(1) n have "complete_code {weight n}" "proper n" "set (leaf_codes n) = T"
      by (simp_all add: forest_inv_def)
    with complete_code_single e show ?thesis by auto
  qed
qed

lemma rebuild_correct:
  assumes "tbl \<noteq> []" "distinct (map snd tbl)" "complete_code (snd ` set tbl)"
  shows "\<exists>root. rebuild tbl = [root] \<and> proper root
            \<and> set tbl = (\<lambda>(p, k). (k, p)) ` set (paths root)"
proof -
  let ?mk = "\<lambda>(value, weight). Node (Some value) weight None None :: string node"
  let ?ns = "sort_key code_key (map ?mk tbl)"
  have wm: "map weight (map ?mk tbl) = map snd tbl" by (induction tbl) auto
  have lc: "(\<Union>n \<in> set (map ?mk tbl). set (leaf_codes n)) = set tbl"
    by (induction tbl) (auto simp: leaf_codes_def)
  have iv: "forest_inv (set tbl) ?ns"
    unfolding forest_inv_def
  proof (intro conjI)
    show "\<forall>n \<in> set ?ns. proper n" by auto
    show "sorted (map code_key ?ns)" by (rule sorted_sort_key)
    show "distinct (map weight ?ns)"
      using assms(2) by (simp only: distinct_map_sort_key wm)
    have "set (map weight ?ns) = weight ` set ?ns" by (simp only: set_map)
    also have "\<dots> = weight ` set (map ?mk tbl)" by (simp only: set_sort)
    also have "\<dots> = set (map weight (map ?mk tbl))" by (simp only: set_map)
    also have "\<dots> = snd ` set tbl" by (simp only: wm set_map)
    finally show "complete_code (set (map weight ?ns))" using assms(3) by (simp only:)
    show "(\<Union>n \<in> set ?ns. set (leaf_codes n)) = set tbl" using lc by simp
  qed
  have ne: "?ns \<noteq> []"
  proof
    assume "?ns = []"
    then have "length ?ns = 0" by (simp only: list.size)
    then have "length tbl = 0" by (simp only: length_sort length_map)
    with assms(1) show False by simp
  qed
  from rebuild_loop_inv [OF iv ne] obtain root where
    r: "rebuild_loop ?ns = [root]" "proper root" "weight root = []" "set (leaf_codes root) = set tbl"
    by (elim exE conjE)
  have lcr: "leaf_codes root = map (\<lambda>(p, k). (k, p)) (paths root)"
    using r(3) by (simp add: leaf_codes_def)
  have st: "set tbl = (\<lambda>(p, k). (k, p)) ` set (paths root)"
    using r(4) [symmetric] by (simp only: lcr set_map)
  have rb: "rebuild tbl = [root]" using r(1) by (simp add: rebuild_def Let_def)
  show ?thesis using rb r(2) st by (intro exI conjI)
qed

section \<open>Encoding and decoding\<close>

lemma digit_0 [simp]: "digit CHR ''0'' = 0"
  by (simp add: digit_def)

lemma digit_1 [simp]: "digit CHR ''1'' = 1"
  by (simp add: digit_def)

lemma walk_path:
  assumes "proper root"
  shows "proper n \<Longrightarrow> \<not> is_leaf n \<Longrightarrow> (p, k) \<in> set (paths n) \<Longrightarrow>
           walk_items root (n, out) (map digit p @ rest) = walk_items root (root, out @ k) rest"
proof (induction p arbitrary: n)
  case Nil
  from paths_inner [OF Nil.prems(2,3)] show ?case by simp
next
  case (Cons x p)
  from proper_children [OF Cons.prems(1,2)] obtain l r where
    c: "lchild n = Some l" "rchild n = Some r" "proper l" "proper r" by blast
  then obtain v w where n: "n = Node v w (Some l) (Some r)" by (cases n) auto
  from Cons.prems(3) n consider
    (left) "x = CHR ''0''" "(p, k) \<in> set (paths l)"
    | (right) "x = CHR ''1''" "(p, k) \<in> set (paths r)"
    by auto
  then obtain c' where c': "proper c'" "(p, k) \<in> set (paths c')"
    "(if digit x \<noteq> 0 then rchild n else lchild n) = Some c'"
    using c by cases auto
  show ?case
  proof (cases "is_leaf c'")
    case True
    from paths_leaf [OF c'(1) True] c'(2) have pk: "paths c' = [([], k)]" "p = []" by auto
    from proper_leaf_val [OF c'(1) True] obtain k' where k': "val c' = Some k'" by blast
    with pk(1) True have "k' = k" by (cases c') (auto simp: is_leaf_def)
    with k' True c'(3) have "walk_step root (n, out) (digit x) = Inr (root, out @ k)"
      by (simp add: walk_step_def is_leaf_def)
    then show ?thesis using pk(2) by simp
  next
    case False
    with c'(3) have "walk_step root (n, out) (digit x) = Inr (c', out)"
      by (auto simp: walk_step_def is_leaf_def)
    with Cons.IH [OF c'(1) False c'(2)] show ?thesis by simp
  qed
qed

lemma walk_codes:
  assumes "proper root" "\<not> is_leaf root"
  shows "list_all2 (\<lambda>c k. (c, k) \<in> set (paths root)) cs ks \<Longrightarrow>
           walk_items root (root, out) (map digit (concat cs) @ rest) =
             walk_items root (root, out @ concat ks) rest"
proof (induction cs ks arbitrary: out rule: list_all2_induct)
  case Nil
  show ?case by simp
next
  case (Cons c cs k ks)
  have "walk_items root (root, out) (map digit (concat (c # cs)) @ rest) =
          walk_items root (root, out) (map digit c @ (map digit (concat cs) @ rest))"
    by simp
  also have "\<dots> = walk_items root (root, out @ k) (map digit (concat cs) @ rest)"
    using walk_path [OF assms(1) assms(1,2) Cons.hyps(1)] .
  also have "\<dots> = walk_items root (root, (out @ k) @ concat ks) rest"
    by (rule Cons.IH)
  finally show ?case by simp
qed

lemma roundtrip_root:
  assumes "tbl \<noteq> []"
    and "rebuild (if length tbl = 1 then setitem tbl OVO ''OVO'' else tbl) = [root]"
    and "proper root" "\<not> is_leaf root"
    and "\<forall>x \<in> set data. \<exists>c. map_of tbl (int_to_bytes x) = Some c
            \<and> (c, int_to_bytes x) \<in> set (paths root)"
  shows "\<exists>packed padding. encode data tbl = Inr (packed, padding)
           \<and> fst (decode packed tbl padding) = Inr data"
proof -
  from assms(5) obtain f where
    f: "\<forall>x \<in> set data. map_of tbl (int_to_bytes x) = Some (f x)
          \<and> (f x, int_to_bytes x) \<in> set (paths root)"
    by metis
  let ?codes = "map f data"
  have lk: "map (map_of tbl \<circ> int_to_bytes) data = map Some ?codes"
    using f by simp
  have bits: "\<forall>c \<in> set ?codes. list_all is_bit c"
    using f paths_bits by fastforce
  from encode_ok [OF lk bits] obtain packed padding where
    e: "encode data tbl = Inr (packed, padding)"
    and c: "concat (map bstr packed) = concat ?codes @ replicate (nat padding) CHR ''0''"
    and p0: "0 \<le> padding"
    by (elim exE conjE)
  have lenb: "length (concat (map bstr packed)) = 8 * length packed"
    by (induction packed) (simp_all add: length_bstr)
  have "8 * length packed = length (concat ?codes) + nat padding"
    using lenb by (simp only: c length_append length_replicate)
  then have n: "8 * int (length packed) - padding = int (length (concat ?codes))"
    using p0 by linarith
  have tk: "take (nat (8 * int (length packed) - padding)) (concat (map dic packed)) =
              map digit (concat ?codes)"
    by (simp only: n concat_dic c nat_int map_append) simp
  have la: "list_all2 (\<lambda>c k. (c, k) \<in> set (paths root)) ?codes (map int_to_bytes data)"
    using f by (simp add: list_all2_conv_all_nth)
  from walk_codes [OF assms(3,4) la, of "[]" "[]"]
  have "walk_items root (root, []) (map digit (concat ?codes)) =
          Inr (root, concat (map int_to_bytes data))"
    by simp
  moreover have "concat (map int_to_bytes data) = data"
    by (induction data) (simp_all add: int_to_bytes_def)
  ultimately have w: "walk_items root (root, []) (map digit (concat ?codes)) = Inr (root, data)"
    by simp
  have nn: "\<not> 8 * int (length packed) - padding < 0" using n by simp
  have "fst (decode packed tbl padding) = Inr data"
    unfolding decode_unfold [OF assms(1,2) no_overflow [OF p0]] tk w using nn by simp
  with e show ?thesis by blast
qed


lemma rebuild_single:
  assumes "k \<noteq> OVO"
  shows "rebuild (setitem [(k, ''0'')] OVO ''OVO'') =
           [Node None [] (Some (Node (Some k) ''0'' None None))
              (Some (Node (Some OVO) ''OVO'' None None))]"
proof -
  let ?a = "Node (Some k) ''0'' None None :: string node"
  let ?b = "Node (Some OVO) ''OVO'' None None :: string node"
  have s: "setitem [(k, ''0'')] OVO ''OVO'' = [(k, ''0''), (OVO, ''OVO'')]"
    using assms by (simp add: setitem_def)
  have o: "sort_key code_key [?a, ?b] = [?a, ?b]"
    by (simp add: code_key_def)
  have m: "map (\<lambda>(value, weight). Node (Some value) weight None None)
             [(k, ''0''), (OVO, ''OVO'')] = [?a, ?b]"
    by simp
  have "rebuild_loop [?a, ?b] = rebuild_loop [Node None [] (Some ?a) (Some ?b)]"
    by (subst rebuild_loop.simps) (simp add: Let_def)
  also have "\<dots> = [Node None [] (Some ?a) (Some ?b)]"
    by (subst rebuild_loop.simps) simp
  finally show ?thesis unfolding rebuild_def Let_def s m o .
qed

lemma decode_empty_payload:
  assumes "tbl \<noteq> []"
  shows "fst (decode [] tbl 0) = Inr []"
proof -
  let ?t = "if length tbl = 1 then setitem tbl OVO ''OVO'' else tbl"
  let ?ns = "sort_key code_key (map (\<lambda>(value, weight). Node (Some value) weight None None) ?t)"
  have "?t \<noteq> []" using assms by (cases tbl) (auto simp: setitem_def)
  then have "length ?ns \<noteq> 0" by (simp only: length_sort length_map length_0_conv) simp
  then have "?ns \<noteq> []" by (simp only: length_0_conv) simp
  from length_rebuild_loop [OF this] obtain root where "rebuild ?t = [root]"
    by (auto simp: rebuild_def length_Suc_conv)
  from decode_unfold [OF assms this no_overflow [of 0 "[]"]] show ?thesis by simp
qed

lemma roundtrip_many:
  assumes "distinct (map fst fre_dic)" "2 \<le> length fre_dic" "build fre_dic = Inr tbl"
    and "\<forall>x \<in> set data. int_to_bytes x \<in> fst ` set tbl"
  shows "\<exists>packed padding. encode data tbl = Inr (packed, padding)
           \<and> fst (decode packed tbl padding) = Inr data"
proof -
  from build_table [OF assms(1,2)] assms(3) obtain rootb :: "int node" where
    t: "map fst tbl = map fst fre_dic" "proper rootb"
       "set tbl = (\<lambda>(p, k). (k, p)) ` set (paths rootb)"
    by auto
  have dk: "distinct (map fst tbl)" using t(1) assms(1) by simp
  have len: "length tbl = length fre_dic" using t(1) by (metis length_map)
  with assms(2) have ne: "tbl \<noteq> []" and n1: "length tbl \<noteq> 1" by auto
  have "snd ` set tbl = fst ` set (paths rootb)"
    unfolding t(3) by (force simp: image_image case_prod_unfold)
  with paths_cpc [OF t(2)] have cp: "complete_code (snd ` set tbl)" by simp
  have "inj_on snd (set tbl)"
  proof (rule inj_onI)
    fix a b assume ab: "a \<in> set tbl" "b \<in> set tbl" "snd a = snd b"
    then have "(snd a, fst a) \<in> set (paths rootb)" "(snd a, fst b) \<in> set (paths rootb)"
      unfolding t(3) by auto
    from paths_prefix_free [OF this] have "fst a = fst b" by simp
    with ab(3) show "a = b" by (simp add: prod_eq_iff)
  qed
  moreover have "distinct tbl" using dk by (simp add: distinct_map)
  ultimately have ds: "distinct (map snd tbl)" by (simp add: distinct_map)
  from rebuild_correct [OF ne ds cp] obtain root where
    r: "rebuild tbl = [root]" "proper root" "set tbl = (\<lambda>(p, k). (k, p)) ` set (paths root)"
    by (elim exE conjE)
  let ?ns = "sort_key code_key (map (\<lambda>(value, weight). Node (Some value) weight None None) tbl)"
  have "2 \<le> length ?ns" using len assms(2) by simp
  moreover have "\<forall>n \<in> set ?ns. proper n" by auto
  ultimately obtain root' where "rebuild_loop ?ns = [root']" "\<not> is_leaf root'"
    using rebuild_loop_proper by blast
  with r(1) have nl: "\<not> is_leaf root" by (simp add: rebuild_def)
  have rb: "rebuild (if length tbl = 1 then setitem tbl OVO ''OVO'' else tbl) = [root]"
    using r(1) n1 by simp
  have "\<forall>x \<in> set data. \<exists>c. map_of tbl (int_to_bytes x) = Some c
            \<and> (c, int_to_bytes x) \<in> set (paths root)"
  proof
    fix x assume "x \<in> set data"
    with assms(4) obtain c where c: "(int_to_bytes x, c) \<in> set tbl" by force
    with dk have "map_of tbl (int_to_bytes x) = Some c" by simp
    moreover from c r(3) have "(c, int_to_bytes x) \<in> set (paths root)" by auto
    ultimately show "\<exists>c. map_of tbl (int_to_bytes x) = Some c
            \<and> (c, int_to_bytes x) \<in> set (paths root)" by blast
  qed
  from roundtrip_root [OF ne rb r(2) nl this] show ?thesis .
qed

lemma roundtrip_single:
  assumes "\<forall>x \<in> set data. int_to_bytes x = k"
  shows "\<exists>packed padding. encode data [(k, ''0'')] = Inr (packed, padding)
           \<and> fst (decode packed [(k, ''0'')] padding) = Inr data"
proof (cases "data = []")
  case True
  then have "encode data [(k, ''0'')] = Inr ([], 0)" by (simp add: encode_def)
  moreover have "fst (decode [] [(k, ''0'')] 0) = Inr []" by (rule decode_empty_payload) simp
  ultimately show ?thesis using True by simp
next
  case False
  then obtain x where "x \<in> set data" by (cases data) auto
  with assms have "length k = 1" by (auto simp: int_to_bytes_def)
  then have k: "k \<noteq> OVO" by (rule OVO_not_single)
  let ?root = "Node None [] (Some (Node (Some k) ''0'' None None))
                 (Some (Node (Some OVO) ''OVO'' None None)) :: string node"
  have rb: "rebuild (if length [(k, ''0'')] = 1 then setitem [(k, ''0'')] OVO ''OVO''
              else [(k, ''0'')]) = [?root]"
    using rebuild_single [OF k] by simp
  have "\<forall>x \<in> set data. \<exists>c. map_of [(k, ''0'')] (int_to_bytes x) = Some c
            \<and> (c, int_to_bytes x) \<in> set (paths ?root)"
    using assms by simp
  from roundtrip_root [OF _ rb _ _ this] show ?thesis by (simp add: is_leaf_def)
qed

text \<open>
  C1. Let the code table be the one \<open>Node.build\<close> returns for a frequency dictionary
  (its keys are distinct), and let every symbol of the data be a key of the table. Then
  \<open>Node.encode\<close> returns a pair of packed bytes and padding, and \<open>Node.decode\<close> of
  these packed bytes and this padding over the same table returns the data. The empty
  dictionary (with the empty data) and the dictionary with a single symbol are included.
\<close>

theorem encode_decode_roundtrip:
  assumes "distinct (map fst fre_dic)"
    and "build fre_dic = Inr table"
    and "\<forall>x \<in> set data. int_to_bytes x \<in> fst ` set table"
  shows "\<exists>packed padding. encode data table = Inr (packed, padding)
           \<and> fst (decode packed table padding) = Inr data"
proof -
  consider (empty) "fre_dic = []" | (single) "length fre_dic = 1" | (many) "2 \<le> length fre_dic"
    by (cases fre_dic; cases "tl fre_dic") auto
  then show ?thesis
  proof cases
    case empty
    with assms(2) have t: "table = []" by (simp add: build_def)
    with assms(3) have "data = []" by (cases data) auto
    with t show ?thesis by (simp add: encode_def decode_def)
  next
    case single
    then obtain k w where "fre_dic = [(k, w)]" by (cases fre_dic) auto
    with assms(2) have t: "table = [(k, ''0'')]" by (simp add: build_def)
    with assms(3) have "\<forall>x \<in> set data. int_to_bytes x = k" by simp
    from roundtrip_single [OF this] t show ?thesis by simp
  next
    case many
    from roundtrip_many [OF assms(1) many assms(2,3)] show ?thesis .
  qed
qed

theorem encode_decode_roundtrip_witness:
  "\<exists>packed padding.
      encode [0x4F, 0x56, 0x4F] [([0x4F], ''0''), ([0x56], ''1'')] = Inr (packed, padding)
      \<and> fst (decode packed [([0x4F], ''0''), ([0x56], ''1'')] padding) = Inr [0x4F, 0x56, 0x4F]"
proof -
  have b: "build [([0x4F], 2), ([0x56], 1)] = Inr [([0x4F], ''0''), ([0x56], ''1'')]"
    by code_simp
  have d: "distinct (map fst [([0x4F :: byte], 2 :: int), ([0x56], 1)])" by simp
  have k: "\<forall>x \<in> set [0x4F, 0x56, 0x4F :: byte].
             int_to_bytes x \<in> fst ` set [([0x4F], ''0''), ([0x56], ''1'')]"
    by (simp add: int_to_bytes_def)
  from encode_decode_roundtrip [OF d b k] show ?thesis .
qed

section \<open>The code table with a single entry\<close>

text \<open>
  C9, as the code has it. The claim is about every code table with a single entry. With
  the one-bit code \<open>1\<close> for the symbol \<open>A\<close>, \<open>Node.encode\<close> of one \<open>A\<close> gives
  the byte \<open>0x80\<close> and the padding 7, and \<open>Node.decode\<close> of these returns the three
  bytes of the placeholder key \<open>b'OVO'\<close>: the real symbol sorts first and becomes the
  left child, the placeholder the right child, which a \<open>1\<close> bit reaches.
\<close>

theorem single_symbol_placeholder_emitted:
  "encode [0x41] [([0x41], ''1'')] = Inr ([0x80], 7)
   \<and> fst (decode [0x80] [([0x41], ''1'')] 7) = Inr [0x4F, 0x56, 0x4F]"
  by code_simp

text \<open>
  C9, amended. For the code table with the single entry that maps a one-byte symbol to
  the code \<open>0\<close>, as \<open>Node.build\<close> makes it, and every byte sequence made of this
  symbol, \<open>Node.decode\<close> of the output of \<open>Node.encode\<close> returns this byte sequence:
  only the real symbol is emitted. The placeholder key \<open>b'OVO'\<close> is no one-byte symbol.
\<close>

theorem single_symbol_roundtrip:
  "\<exists>packed padding.
      encode (replicate n x) [(int_to_bytes x, ''0'')] = Inr (packed, padding)
      \<and> fst (decode packed [(int_to_bytes x, ''0'')] padding) = Inr (replicate n x)
      \<and> (\<forall>y. int_to_bytes y \<noteq> OVO)"
proof -
  have "\<forall>y \<in> set (replicate n x). int_to_bytes y = int_to_bytes x" by simp
  from roundtrip_single [OF this] obtain packed padding where
    "encode (replicate n x) [(int_to_bytes x, ''0'')] = Inr (packed, padding)"
    "fst (decode packed [(int_to_bytes x, ''0'')] padding) = Inr (replicate n x)"
    by (elim exE conjE)
  moreover have "\<forall>y. int_to_bytes y \<noteq> OVO"
    by (simp add: int_to_bytes_def OVO_def)
  ultimately show ?thesis by (intro exI conjI)
qed

theorem single_symbol_roundtrip_witness:
  "\<exists>packed padding.
      encode [0x41, 0x41, 0x41, 0x41, 0x41] [([0x41], ''0'')] = Inr (packed, padding)
      \<and> fst (decode packed [([0x41], ''0'')] padding) = Inr [0x41, 0x41, 0x41, 0x41, 0x41]"
  using single_symbol_roundtrip [of 5 "0x41"]
  by (simp add: int_to_bytes_def numeral_eq_Suc) blast

end
